theory Spec2Isabelle
  imports Main "HOL-Library.Char_ord" "HOL-Library.List_Lexorder" "HOL-Library.Sublist"
    "HOL-Library.Word"
begin

unbundle bit_operations_syntax

section \<open>Strings and normalization\<close>

text \<open>
  The program is Python 2 (\<^verbatim>\<open>matcher.py\<close>), and its strings come from \<open>json.loads\<close>:
  they are \<open>unicode\<close> objects. A string is modelled as the list of its code points, and a
  code point as a \<open>char\<close>: the strings of the model are those whose code points are below
  256 (ASCII and Latin-1). Strings are compared lexicographically by code point, and
  \<open>s in t\<close> is contiguous containment. An absent value (Python's \<open>None\<close>) is \<open>None\<close> of
  an option type.

  \<open>unicode.lower\<close> maps each code point to its lower-case form. Below 256 the upper-case
  letters are \<open>A..Z\<close> (65..90) and U+00C0..U+00DE without the multiplication sign
  U+00D7, and the lower-case form of each is 32 above it; every other code point below 256
  is its own lower-case form.
\<close>

definition is_upper :: "char \<Rightarrow> bool" where
  "is_upper c =
     ((CHR ''A'' \<le> c \<and> c \<le> CHR ''Z'') \<or> (CHR 0xC0 \<le> c \<and> c \<le> CHR 0xDE \<and> c \<noteq> CHR 0xD7))"

definition lower_char :: "char \<Rightarrow> char" where
  "lower_char c = (if is_upper c then char_of (of_char c + (32::nat)) else c)"

definition str_lower :: "string \<Rightarrow> string" where
  "str_lower s = map lower_char s"

text \<open>
  \<^verbatim>\<open>def normalize(s): if s is None: return s; return s.lower()\<close>
\<close>

fun normalize :: "string option \<Rightarrow> string option" where
  "normalize None = None"
| "normalize (Some s) = Some (str_lower s)"

text \<open>Python's \<open>s in t\<close> on strings: \<open>s\<close> occurs in \<open>t\<close> as a contiguous run.\<close>

fun str_in :: "string \<Rightarrow> string \<Rightarrow> bool" where
  "str_in s [] = (s = [])"
| "str_in s (c # t) = (prefix s (c # t) \<or> str_in s t)"

section \<open>Regular expressions: the fragment of Python's re that a model can produce\<close>

text \<open>
  \<open>Product.__init__\<close> formats the normalized model into the pattern
  \<^verbatim>\<open>(^|\b)({0})($|\b)\<close> without escaping it, so the model's characters are read as
  pattern syntax. The fragment modelled: literal characters, \<open>.\<close>, \<open>^\<close>, \<open>$\<close>, \<open>\b\<close>,
  groups, alternation, and the repeats \<open>*\<close>, \<open>+\<close>, \<open>?\<close> of a single character or \<open>.\<close>.
  A pattern the library rejects is \<open>ReError\<close>. A pattern outside the fragment (a
  character class, a counted repeat, another escape, a repeated group, a lazy repeat,
  a group extension) is \<open>Unsupported\<close>: that is no error of the program, which may
  accept such a pattern, and nothing is stated about a catalog that has one.
\<close>

datatype error = KeyError string | UnicodeEncodeError | ReError | Unsupported

datatype atom = Literal char | AnyChar

datatype regex =
    Atom atom
  | MaxRepeat nat "nat option" atom
  | AtBeginning
  | AtEnd
  | AtBoundary
  | Subpattern regex
  | Branch regex regex
  | Cat regex regex
  | Epsilon

fun cat_all :: "regex list \<Rightarrow> regex" where
  "cat_all [] = Epsilon"
| "cat_all (r # rs) = Cat r (cat_all rs)"

fun branch_all :: "regex list \<Rightarrow> regex" where
  "branch_all [] = Epsilon"
| "branch_all [r] = r"
| "branch_all (r # rs) = Branch r (branch_all rs)"

text \<open>
  The parser reads the pattern left to right. A frame holds the finished alternatives of
  the group being read and the items of its current alternative; the stack holds the
  frames of the enclosing groups; \<open>pending_escape\<close> is set after a backslash.
\<close>

type_synonym frame = "regex list \<times> regex list"

record parser =
  stack :: "frame list"
  alternatives :: "regex list"
  items :: "regex list"
  pending_escape :: bool

definition close_frame :: "regex list \<Rightarrow> regex list \<Rightarrow> regex" where
  "close_frame alts its = branch_all (alts @ [cat_all its])"

definition push_item :: "parser \<Rightarrow> regex \<Rightarrow> error + parser" where
  "push_item p r = Inr (p\<lparr>items := items p @ [r]\<rparr>)"

text \<open>
  A repeat character applies to the last item of the current alternative. With no item,
  or an anchor, the library raises "nothing to repeat"; on a repeat it raises "multiple
  repeat" (\<open>?\<close> there makes the repeat lazy: outside the fragment). \<open>(?\<close> opens a group
  extension: outside the fragment.
\<close>

definition repeat_last :: "parser \<Rightarrow> char \<Rightarrow> nat \<Rightarrow> nat option \<Rightarrow> error + parser" where
  "repeat_last p c lo hi =
     (if items p = [] then
        (if c = CHR ''?'' \<and> alternatives p = [] \<and> stack p \<noteq> [] then Inl Unsupported
         else Inl ReError)
      else
        (case last (items p) of
           Atom a \<Rightarrow> Inr (p\<lparr>items := butlast (items p) @ [MaxRepeat lo hi a]\<rparr>)
         | MaxRepeat _ _ _ \<Rightarrow> (if c = CHR ''?'' then Inl Unsupported else Inl ReError)
         | AtBeginning \<Rightarrow> Inl ReError
         | AtEnd \<Rightarrow> Inl ReError
         | AtBoundary \<Rightarrow> Inl ReError
         | _ \<Rightarrow> Inl Unsupported))"

definition parse_char :: "parser \<Rightarrow> char \<Rightarrow> error + parser" where
  "parse_char p c =
     (if pending_escape p then
        (if c = CHR ''b'' then push_item (p\<lparr>pending_escape := False\<rparr>) AtBoundary
         else Inl Unsupported)
      else if c = CHR 0x5C then Inr (p\<lparr>pending_escape := True\<rparr>)
      else if c = CHR ''('' then
        Inr (p\<lparr>stack := (alternatives p, items p) # stack p, alternatives := [], items := []\<rparr>)
      else if c = CHR '')'' then
        (case stack p of
           [] \<Rightarrow> Inl ReError
         | (alts, its) # rest \<Rightarrow>
             Inr (p\<lparr>stack := rest, alternatives := alts,
                    items := its @ [Subpattern (close_frame (alternatives p) (items p))]\<rparr>))
      else if c = CHR ''|'' then
        Inr (p\<lparr>alternatives := alternatives p @ [cat_all (items p)], items := []\<rparr>)
      else if c = CHR ''*'' then repeat_last p c 0 None
      else if c = CHR ''+'' then repeat_last p c 1 None
      else if c = CHR ''?'' then repeat_last p c 0 (Some 1)
      else if c = CHR ''.'' then push_item p (Atom AnyChar)
      else if c = CHR ''^'' then push_item p AtBeginning
      else if c = CHR ''$'' then push_item p AtEnd
      else if c = CHR ''['' \<or> c = CHR ''{'' then Inl Unsupported
      else push_item p (Atom (Literal c)))"

fun parse_chars :: "parser \<Rightarrow> string \<Rightarrow> error + parser" where
  "parse_chars p [] = Inr p"
| "parse_chars p (c # cs) =
     (case parse_char p c of Inl e \<Rightarrow> Inl e | Inr p' \<Rightarrow> parse_chars p' cs)"

text \<open>\<open>re.compile\<close>: a backslash at the end and an unclosed group are errors.\<close>

definition re_compile :: "string \<Rightarrow> error + regex" where
  "re_compile pat =
     (case parse_chars \<lparr>stack = [], alternatives = [], items = [], pending_escape = False\<rparr> pat of
        Inl e \<Rightarrow> Inl e
      | Inr p \<Rightarrow>
          (if pending_escape p then Inl ReError
           else if stack p \<noteq> [] then Inl ReError
           else Inr (close_frame (alternatives p) (items p))))"

text \<open>
  Matching. A word character is \<open>[a-zA-Z0-9_]\<close> (no flags are given). \<open>\b\<close> holds at a
  position of a non-empty text where exactly one of the characters before and after it
  is a word character (outside the text counts as not a word character). \<open>$\<close> holds at
  the end of the text and before a newline that ends it; \<open>.\<close> matches any character but
  a newline.
\<close>

definition is_word :: "char \<Rightarrow> bool" where
  "is_word c =
     ((CHR ''a'' \<le> c \<and> c \<le> CHR ''z'') \<or> (CHR ''A'' \<le> c \<and> c \<le> CHR ''Z'')
      \<or> (CHR ''0'' \<le> c \<and> c \<le> CHR ''9'') \<or> c = CHR ''_'')"

definition at_boundary :: "string \<Rightarrow> nat \<Rightarrow> bool" where
  "at_boundary t i =
     (t \<noteq> [] \<and> ((0 < i \<and> is_word (t ! (i - 1))) \<noteq> (i < length t \<and> is_word (t ! i))))"

fun atom_ok :: "atom \<Rightarrow> char \<Rightarrow> bool" where
  "atom_ok (Literal c) d = (d = c)"
| "atom_ok AnyChar d = (d \<noteq> CHR 0x0A)"

text \<open>
  \<open>ends r t i\<close> lists the positions where a match of \<open>r\<close> that starts at position \<open>i\<close>
  of \<open>t\<close> can end. The library's matcher backtracks over all of them, so
  \<open>search\<close> finds a match exactly when some start position has one.
\<close>

fun ends :: "regex \<Rightarrow> string \<Rightarrow> nat \<Rightarrow> nat list" where
  "ends (Atom a) t i = (if i < length t \<and> atom_ok a (t ! i) then [Suc i] else [])"
| "ends (MaxRepeat lo hi a) t i =
     (let n = length (takeWhile (atom_ok a) (drop i t));
          top = (case hi of None \<Rightarrow> n | Some h \<Rightarrow> min h n)
      in map (\<lambda>k. i + k) [lo..<Suc top])"
| "ends AtBeginning t i = (if i = 0 then [i] else [])"
| "ends AtEnd t i =
     (if i = length t \<or> (Suc i = length t \<and> t ! i = CHR 0x0A) then [i] else [])"
| "ends AtBoundary t i = (if at_boundary t i then [i] else [])"
| "ends (Subpattern r) t i = ends r t i"
| "ends (Branch a b) t i = ends a t i @ ends b t i"
| "ends (Cat a b) t i = concat (map (ends b t) (ends a t i))"
| "ends Epsilon t i = [i]"

text \<open>\<open>pattern.search(t) is not None\<close>\<close>

definition re_search :: "regex \<Rightarrow> string \<Rightarrow> bool" where
  "re_search r t = list_ex (\<lambda>i. ends r t i \<noteq> []) [0..<Suc (length t)]"

section \<open>The catalog: products, families, manufacturers\<close>

record product =
  product_name :: string
  product_family :: "string option"
  product_model :: string
  whole_model_re :: regex

text \<open>\<^verbatim>\<open>r'(^|\b)({0})($|\b)'.format(self.model)\<close>\<close>

definition whole_model_pattern :: "string \<Rightarrow> string" where
  "whole_model_pattern m =
     [CHR ''('', CHR ''^'', CHR ''|'', CHR 0x5C, CHR ''b'', CHR '')'', CHR ''(''] @ m @
     [CHR '')'', CHR ''('', CHR ''$'', CHR ''|'', CHR 0x5C, CHR ''b'', CHR '')'']"

text \<open>
  \<open>Product.__init__(name, family, model)\<close>: name and model are strings of the catalog
  record, family is absent when the record has none. The pattern's template is a byte
  string, so \<open>format\<close> encodes the normalized model as ASCII: it raises
  \<open>UnicodeEncodeError\<close> when the model has a code point above 127. Compiling the pattern
  can raise too.
\<close>

definition Product :: "string \<Rightarrow> string option \<Rightarrow> string \<Rightarrow> error + product" where
  "Product name family model =
     (if list_ex (\<lambda>c. 128 \<le> (of_char c :: nat)) (str_lower model) then Inl UnicodeEncodeError
      else
        (case re_compile (whole_model_pattern (str_lower model)) of
           Inl e \<Rightarrow> Inl e
         | Inr r \<Rightarrow>
             Inr \<lparr>product_name = str_lower name, product_family = normalize family,
                  product_model = str_lower model, whole_model_re = r\<rparr>))"

text \<open>\<open>Family.__init__(name)\<close> and \<open>Family.add_product\<close>\<close>

record family =
  family_name :: string
  family_products :: "product list"

definition Family :: "string \<Rightarrow> family" where
  "Family name = \<lparr>family_name = str_lower name, family_products = []\<rparr>"

definition family_add_product :: "family \<Rightarrow> product \<Rightarrow> family" where
  "family_add_product f p = f\<lparr>family_products := family_products f @ [p]\<rparr>"

record manufacturer =
  manufacturer_name :: string
  products :: "product list"
  families :: "family list"
  orphans_products :: "product list"

definition Manufacturer :: "string \<Rightarrow> manufacturer" where
  "Manufacturer name =
     \<lparr>manufacturer_name = str_lower name, products = [], families = [], orphans_products = []\<rparr>"

text \<open>
  The family of a product within \<open>self.families\<close>: the first family of that name gets the
  product; when there is none, a new family is appended and gets it.
\<close>

fun add_to_families :: "family list \<Rightarrow> string \<Rightarrow> product \<Rightarrow> family list" where
  "add_to_families [] n p = [family_add_product (Family n) p]"
| "add_to_families (f # fs) n p =
     (if family_name f = n then family_add_product f p # fs
      else f # add_to_families fs n p)"

text \<open>\<open>Manufacturer.add_product\<close>\<close>

definition add_product :: "manufacturer \<Rightarrow> product \<Rightarrow> manufacturer" where
  "add_product m p =
     (let m1 = m\<lparr>products := products m @ [p]\<rparr> in
      case product_family p of
        None \<Rightarrow> m1\<lparr>orphans_products := orphans_products m1 @ [p]\<rparr>
      | Some fam \<Rightarrow> m1\<lparr>families := add_to_families (families m1) (str_lower fam) p\<rparr>)"

text \<open>
  A catalog record and a listing are JSON objects with string values: a map from field
  names to strings. \<open>obj[key]\<close> raises \<open>KeyError\<close> on a missing key.
\<close>

type_synonym json = "string \<rightharpoonup> string"

definition getitem :: "json \<Rightarrow> string \<Rightarrow> error + string" where
  "getitem obj k = (case obj k of None \<Rightarrow> Inl (KeyError k) | Some v \<Rightarrow> Inr v)"

text \<open>
  The manufacturer of a record within \<open>self.manufacturers\<close>: the first manufacturer of
  that name, or a new one appended when there is none; the product is added to it.
\<close>

fun add_to_manufacturers :: "manufacturer list \<Rightarrow> string \<Rightarrow> product \<Rightarrow> manufacturer list" where
  "add_to_manufacturers [] n p = [add_product (Manufacturer n) p]"
| "add_to_manufacturers (m # ms) n p =
     (if manufacturer_name m = n then add_product m p # ms
      else m # add_to_manufacturers ms n p)"

text \<open>
  One turn of the loop of \<open>prepare_products_data\<close>: the fields are read in the order
  manufacturer, product_name, family (when present), model.
\<close>

definition add_record :: "manufacturer list \<Rightarrow> json \<Rightarrow> error + manufacturer list" where
  "add_record ms r =
     (case getitem r ''manufacturer'' of
        Inl e \<Rightarrow> Inl e
      | Inr mf \<Rightarrow>
          (case getitem r ''product_name'' of
             Inl e \<Rightarrow> Inl e
           | Inr pn \<Rightarrow>
               (case getitem r ''model'' of
                  Inl e \<Rightarrow> Inl e
                | Inr md \<Rightarrow>
                    (case Product pn (r ''family'') md of
                       Inl e \<Rightarrow> Inl e
                     | Inr p \<Rightarrow> Inr (add_to_manufacturers ms (str_lower mf) p)))))"

fun add_records :: "manufacturer list \<Rightarrow> json list \<Rightarrow> error + manufacturer list" where
  "add_records ms [] = Inr ms"
| "add_records ms (r # rs) =
     (case add_record ms r of Inl e \<Rightarrow> Inl e | Inr ms' \<Rightarrow> add_records ms' rs)"

text \<open>
  \<open>prepare_products_data\<close>: the records of the products file in order, then
  \<open>self.manufacturers.sort()\<close>, which compares manufacturers by name.
\<close>

definition prepare_products_data :: "json list \<Rightarrow> error + manufacturer list" where
  "prepare_products_data recs =
     (case add_records [] recs of
        Inl e \<Rightarrow> Inl e
      | Inr ms \<Rightarrow> Inr (sort_key manufacturer_name ms))"

section \<open>Matching listings\<close>

text \<open>
  \<open>bisect_left(a, x)\<close> of the standard library, on the manufacturers' names:
  \<^verbatim>\<open>while lo < hi: mid = (lo+hi)//2; if a[mid] < x: lo = mid+1 else: hi = mid\<close>
\<close>

function bisect_left_loop :: "string list \<Rightarrow> string \<Rightarrow> nat \<Rightarrow> nat \<Rightarrow> nat" where
  "bisect_left_loop a x lo hi =
     (if lo < hi then
        (let mid = (lo + hi) div 2 in
         if a ! mid < x then bisect_left_loop a x (mid + 1) hi
         else bisect_left_loop a x lo mid)
      else lo)"
  by pat_completeness auto
termination
  by (relation "measure (\<lambda>(a, x, lo, hi). hi - lo)") auto

declare bisect_left_loop.simps [simp del]

definition bisect_left :: "manufacturer list \<Rightarrow> string \<Rightarrow> nat" where
  "bisect_left ms x = bisect_left_loop (map manufacturer_name ms) x 0 (length ms)"

text \<open>
  Lines 139-148: the manufacturer of a listing, from its normalized manufacturer name.
\<close>

definition find_manufacturer :: "manufacturer list \<Rightarrow> string \<Rightarrow> manufacturer option" where
  "find_manufacturer ms n =
     (let index = bisect_left ms n in
      if index < length ms \<and> str_in n (manufacturer_name (ms ! index)) then Some (ms ! index)
      else if 0 < index \<and> str_in n (manufacturer_name (ms ! (index - 1)))
      then Some (ms ! (index - 1))
      else None)"

text \<open>
  The state of a run: \<open>self.matches\<close>, a dictionary from product names to the listings
  matched to them. The dictionary is the map \<open>matches\<close> together with \<open>key_order\<close>, its
  keys in the order they were first set: nothing is ever deleted from it, so the order of
  the first settings fixes the layout of its hash table and with it the order in which
  its keys are iterated (see \<open>produce_output\<close>). \<open>calls\<close> is not in the source: it logs
  the candidate list of each call of \<open>find_product_and_add_to_result\<close>, so that which
  lists are tried can be stated. The debug counters are left out: nothing reads them
  during matching.
\<close>

record matcher =
  matches :: "string \<rightharpoonup> json list"
  key_order :: "string list"
  calls :: "product list list"

text \<open>Lines 181-184: the listing is recorded under the product's name.\<close>

definition add_to_result :: "string \<Rightarrow> json \<Rightarrow> (string \<rightharpoonup> json list) \<Rightarrow> (string \<rightharpoonup> json list)" where
  "add_to_result name listing ms =
     (case ms name of
        None \<Rightarrow> ms(name \<mapsto> [listing])
      | Some ls \<Rightarrow> ms(name \<mapsto> ls @ [listing]))"

text \<open>The keys in the order of their first setting, after a recording under \<open>name\<close>.\<close>

definition add_to_key_order :: "string \<Rightarrow> matcher \<Rightarrow> string list" where
  "add_to_key_order name st =
     (if matches st name = None then key_order st @ [name] else key_order st)"

fun find_product_loop :: "product list \<Rightarrow> json \<Rightarrow> string \<Rightarrow> matcher \<Rightarrow> bool \<times> matcher" where
  "find_product_loop [] listing title st = (False, st)"
| "find_product_loop (p # ps) listing title st =
     (if re_search (whole_model_re p) title
      then (True, st\<lparr>matches := add_to_result (product_name p) listing (matches st),
                      key_order := add_to_key_order (product_name p) st\<rparr>)
      else find_product_loop ps listing title st)"

definition find_product_and_add_to_result ::
  "product list \<Rightarrow> json \<Rightarrow> string \<Rightarrow> matcher \<Rightarrow> bool \<times> matcher" where
  "find_product_and_add_to_result ps listing title st =
     find_product_loop ps listing title (st\<lparr>calls := calls st @ [ps]\<rparr>)"

text \<open>
  Lines 152-158: the loop over the families; the result is whether it ended by \<open>break\<close>.
\<close>

fun families_loop :: "family list \<Rightarrow> json \<Rightarrow> string \<Rightarrow> matcher \<Rightarrow> bool \<times> matcher" where
  "families_loop [] listing title st = (False, st)"
| "families_loop (f # fs) listing title st =
     (if str_in (family_name f) title then
        (case find_product_and_add_to_result (family_products f) listing title st of
           (True, st') \<Rightarrow> (True, st')
         | (False, st') \<Rightarrow> families_loop fs listing title st')
      else families_loop fs listing title st)"

text \<open>Lines 150-165: the loop's \<open>else\<close> runs when the loop did not break.\<close>

definition match_in_manufacturer :: "manufacturer \<Rightarrow> json \<Rightarrow> string \<Rightarrow> matcher \<Rightarrow> matcher" where
  "match_in_manufacturer m listing title st =
     (case families_loop (families m) listing title st of
        (True, st') \<Rightarrow> st'
      | (False, st') \<Rightarrow>
          snd (find_product_and_add_to_result (orphans_products m) listing title st'))"

text \<open>One turn of the loop of \<open>match_listings\<close>.\<close>

definition match_listing :: "manufacturer list \<Rightarrow> matcher \<Rightarrow> json \<Rightarrow> error + matcher" where
  "match_listing ms st listing =
     (case getitem listing ''manufacturer'' of
        Inl e \<Rightarrow> Inl e
      | Inr mf \<Rightarrow>
          (case getitem listing ''title'' of
             Inl e \<Rightarrow> Inl e
           | Inr ti \<Rightarrow>
               (case find_manufacturer ms (str_lower mf) of
                  None \<Rightarrow> Inr st
                | Some m \<Rightarrow> Inr (match_in_manufacturer m listing (str_lower ti) st))))"

fun match_loop :: "manufacturer list \<Rightarrow> matcher \<Rightarrow> json list \<Rightarrow> error + matcher" where
  "match_loop ms st [] = Inr st"
| "match_loop ms st (l # ls) =
     (case match_listing ms st l of Inl e \<Rightarrow> Inl e | Inr st' \<Rightarrow> match_loop ms st' ls)"

definition match_listings :: "manufacturer list \<Rightarrow> json list \<Rightarrow> error + matcher" where
  "match_listings ms listings =
     match_loop ms \<lparr>matches = Map.empty, key_order = [], calls = []\<rparr> listings"

text \<open>
  \<open>Matcher.run\<close> up to the output file: the catalog index is built, then the listings
  are matched.
\<close>

definition run :: "json list \<Rightarrow> json list \<Rightarrow> error + matcher" where
  "run product_records listings =
     (case prepare_products_data product_records of
        Inl e \<Rightarrow> Inl e
      | Inr ms \<Rightarrow> match_listings ms listings)"

section \<open>The result dictionary as a Python 2 dict, and the output\<close>

text \<open>
  The hash of a \<open>unicode\<close> string in CPython 2.7 (\<open>unicode_hash\<close>, hash randomization
  off as by default), on a platform whose C \<open>long\<close> has 64 bits:
  \<^verbatim>\<open>x = *p << 7; while (--len >= 0) x = (1000003*x) ^ *p++; x ^= size; if (x == -1) x = -2\<close>,
  and 0 for the empty string.
\<close>

definition py_hash :: "string \<Rightarrow> 64 word" where
  "py_hash s =
     (if s = [] then 0
      else
        (let x0 = push_bit 7 (of_nat (of_char (hd s)));
             x1 = fold (\<lambda>c x. (1000003 * x) XOR of_nat (of_char c)) s x0;
             x2 = x1 XOR of_nat (length s)
         in if x2 = - 1 then - 2 else x2))"

text \<open>
  The dict (\<open>dictobject.c\<close>): a table of \<open>ma_mask + 1\<close> slots, a power of two, each
  empty or holding a key (the values are in the map \<open>matches\<close>). No key is ever deleted
  here, so the filled slots are the used ones.
\<close>

record pydict =
  ma_mask :: nat
  ma_table :: "string option list"
  ma_used :: nat

text \<open>
  The probe sequence of \<open>lookdict\<close> and \<open>insertdict_clean\<close> for a key that is not in
  the table, from a slot that is taken:
  \<^verbatim>\<open>for (perturb = hash; ep->me_key != NULL; perturb >>= 5) { i = (i << 2) + i + perturb + 1; ep = &ep0[i & mask]; }\<close>
  The loop ends when it meets an empty slot; not ending is the value \<open>None\<close>.
\<close>

partial_function (option) probe ::
  "string option list \<Rightarrow> 64 word \<Rightarrow> 64 word \<Rightarrow> 64 word \<Rightarrow> nat option" where
  "probe table msk i perturb =
     (let i' = push_bit 2 i + i + perturb + 1; j = unat (i' AND msk) in
      if table ! j = None then Some j else probe table msk i' (drop_bit 5 perturb))"

definition find_empty_slot :: "pydict \<Rightarrow> 64 word \<Rightarrow> nat option" where
  "find_empty_slot d h =
     (let msk = of_nat (ma_mask d); i = h AND msk in
      if ma_table d ! unat i = None then Some (unat i) else probe (ma_table d) msk i h)"

definition insertdict_clean :: "pydict \<Rightarrow> string \<Rightarrow> pydict option" where
  "insertdict_clean d key =
     (case find_empty_slot d (py_hash key) of
        None \<Rightarrow> None
      | Some j \<Rightarrow> Some (d\<lparr>ma_table := (ma_table d)[j := Some key], ma_used := ma_used d + 1\<rparr>))"

text \<open>
  \<open>dictresize\<close>: the new size is the first power of two from 8 above \<open>minused\<close>, and the
  keys are inserted again in the order of the old table's slots.
\<close>

function newsize_loop :: "nat \<Rightarrow> nat \<Rightarrow> nat" where
  "newsize_loop newsize minused =
     (if newsize \<le> minused \<and> 0 < newsize then newsize_loop (2 * newsize) minused else newsize)"
  by pat_completeness auto
termination
  by (relation "measure (\<lambda>(newsize, minused). Suc minused - newsize)") auto

declare newsize_loop.simps [simp del]

fun reinsert :: "string option list \<Rightarrow> pydict \<Rightarrow> pydict option" where
  "reinsert [] d = Some d"
| "reinsert (None # es) d = reinsert es d"
| "reinsert (Some k # es) d =
     (case insertdict_clean d k of None \<Rightarrow> None | Some d' \<Rightarrow> reinsert es d')"

definition dictresize :: "pydict \<Rightarrow> nat \<Rightarrow> pydict option" where
  "dictresize d minused =
     (let newsize = newsize_loop 8 minused in
      reinsert (ma_table d) \<lparr>ma_mask = newsize - 1, ma_table = replicate newsize None, ma_used = 0\<rparr>)"

text \<open>
  \<open>PyDict_SetItem\<close> of a new key: the table is resized when two thirds of it are filled,
  to four times the number of keys (twice above 50000 keys).
\<close>

definition dict_setitem :: "pydict \<Rightarrow> string \<Rightarrow> pydict option" where
  "dict_setitem d key =
     (case insertdict_clean d key of
        None \<Rightarrow> None
      | Some d' \<Rightarrow>
          if (ma_mask d' + 1) * 2 \<le> ma_used d' * 3
          then dictresize d' ((if 50000 < ma_used d' then 2 else 4) * ma_used d')
          else Some d')"

fun dict_of_keys :: "pydict \<Rightarrow> string list \<Rightarrow> pydict option" where
  "dict_of_keys d [] = Some d"
| "dict_of_keys d (k # ks) =
     (case dict_setitem d k of None \<Rightarrow> None | Some d' \<Rightarrow> dict_of_keys d' ks)"

definition new_dict :: pydict where
  "new_dict = \<lparr>ma_mask = 7, ma_table = replicate 8 None, ma_used = 0\<rparr>"

text \<open>Iterating a dict yields the keys of its slots in the order of the slots.\<close>

definition dict_keys :: "pydict \<Rightarrow> string list" where
  "dict_keys d = map the (filter (\<lambda>e. e \<noteq> None) (ma_table d))"

declare probe.simps [code]

text \<open>
  \<open>produce_output\<close>: one line per key of \<open>self.matches\<close>, in the order the dict is
  iterated, with the product name and its listings. The lines are the result; writing
  them to the file is not modelled.
\<close>

definition produce_output :: "matcher \<Rightarrow> (string \<times> json list) list option" where
  "produce_output st =
     map_option
       (\<lambda>d. map (\<lambda>k. (k, case matches st k of None \<Rightarrow> [] | Some ls \<Rightarrow> ls)) (dict_keys d))
       (dict_of_keys new_dict (key_order st))"

section \<open>Auxiliary notions for the statements\<close>

text \<open>One dictionary grows into another: every key stays, and its list only gets longer at the end.\<close>

definition grows :: "('k \<rightharpoonup> 'v list) \<Rightarrow> ('k \<rightharpoonup> 'v list) \<Rightarrow> bool" where
  "grows m m' = (\<forall>k ls. m k = Some ls \<longrightarrow> (\<exists>ext. m' k = Some (ls @ ext)))"

text \<open>The product a candidate list resolves to: the first whose pattern is found in the title.\<close>

definition first_match :: "product list \<Rightarrow> string \<Rightarrow> product option" where
  "first_match ps title = List.find (\<lambda>p. re_search (whole_model_re p) title) ps"

text \<open>
  The insertion point of \<open>x\<close> in a sorted sequence, in the words of the specification: the
  index before which every element is smaller than \<open>x\<close>, that is the number of elements
  smaller than \<open>x\<close>.
\<close>

definition insertion_point :: "string list \<Rightarrow> string \<Rightarrow> nat" where
  "insertion_point xs x = length (filter (\<lambda>y. y < x) xs)"

text \<open>
  The candidate products of a manufacturer for a title, in the order they are tried: the
  products of the families whose name occurs in the title, then the orphans.
\<close>

definition candidates :: "manufacturer \<Rightarrow> string \<Rightarrow> product list" where
  "candidates m title =
     concat (map family_products (filter (\<lambda>f. str_in (family_name f) title) (families m)))
     @ orphans_products m"

text \<open>The product a listing is matched to, from its manufacturer and title strings.\<close>

definition matched_product :: "manufacturer list \<Rightarrow> string \<Rightarrow> string \<Rightarrow> product option" where
  "matched_product ms mf ti =
     (case find_manufacturer ms (str_lower mf) of
        None \<Rightarrow> None
      | Some m \<Rightarrow> first_match (candidates m (str_lower ti)) (str_lower ti))"

text \<open>The products held by a manufacturer.\<close>

definition manufacturer_products :: "manufacturer \<Rightarrow> product set" where
  "manufacturer_products m =
     (\<Union>f\<in>set (families m). set (family_products f)) \<union> set (orphans_products m)"

text \<open>
  The entries of an index: each product with the name of the manufacturer that holds it.
\<close>

definition catalog_entries :: "manufacturer list \<Rightarrow> (string \<times> product) set" where
  "catalog_entries ms =
     (\<Union>m\<in>set ms. (\<lambda>p. (manufacturer_name m, p)) ` manufacturer_products m)"

text \<open>
  The product \<open>p\<close>, held under the manufacturer name \<open>n\<close>, is the one built from the
  record \<open>r\<close>: from its display name, family and model, under its manufacturer.
\<close>

definition from_record :: "json \<Rightarrow> string \<Rightarrow> product \<Rightarrow> bool" where
  "from_record r n p =
     (\<exists>mf pn md. r ''manufacturer'' = Some mf \<and> r ''product_name'' = Some pn
        \<and> r ''model'' = Some md \<and> n = str_lower mf \<and> Product pn (r ''family'') md = Inr p)"

text \<open>A character that pattern syntax reads as itself.\<close>

definition plain_char :: "char \<Rightarrow> bool" where
  "plain_char c =
     (c \<notin> set [CHR 0x5C, CHR ''('', CHR '')'', CHR ''|'', CHR ''*'', CHR ''+'', CHR ''?'',
               CHR ''.'', CHR ''^'', CHR ''$'', CHR ''['', CHR ''{''])"

text \<open>
  The model occurs in the title as a whole token, in the words of the specification: at
  some position the title continues with the model, the start of the title or a word
  boundary is before it, and the end of the title (a newline that ends it apart) or a
  word boundary is after it.
\<close>

definition occurs_whole :: "string \<Rightarrow> string \<Rightarrow> bool" where
  "occurs_whole m t =
     list_ex (\<lambda>i. prefix m (drop i t) \<and> (i = 0 \<or> at_boundary t i)
          \<and> (i + length m = length t
              \<or> (Suc (i + length m) = length t \<and> t ! (i + length m) = CHR 0x0A)
              \<or> at_boundary t (i + length m)))
       [0..<Suc (length t)]"

text \<open>The two ends of the whole-model pattern, \<^verbatim>\<open>(^|\b)\<close> and \<^verbatim>\<open>($|\b)\<close>, as compiled.\<close>

definition left_bound :: regex where
  "left_bound = Subpattern (Branch (Cat AtBeginning Epsilon) (Cat AtBoundary Epsilon))"

definition right_bound :: regex where
  "right_bound = Subpattern (Branch (Cat AtEnd Epsilon) (Cat AtBoundary Epsilon))"

text \<open>
  An upper-case letter \<open>u\<close> below 256 and its lower-case form \<open>l\<close>, by code points; two
  characters that are the same or differ in case only.
\<close>

definition case_pair :: "char \<Rightarrow> char \<Rightarrow> bool" where
  "case_pair u l =
     ((of_char l :: nat) = of_char u + 32
      \<and> ((65 \<le> (of_char u :: nat) \<and> (of_char u :: nat) \<le> 90)
         \<or> (192 \<le> (of_char u :: nat) \<and> (of_char u :: nat) \<le> 222 \<and> (of_char u :: nat) \<noteq> 215)))"

definition same_letter :: "char \<Rightarrow> char \<Rightarrow> bool" where
  "same_letter c d = (c = d \<or> case_pair c d \<or> case_pair d c)"

text \<open>
  The slot of a key in a table of 8 slots, and the table after setting the keys \<open>ks\<close>
  when each has a slot of its own.
\<close>

definition slot8 :: "string \<Rightarrow> nat" where
  "slot8 k = unat (py_hash k AND 7)"

definition small_dict :: "string list \<Rightarrow> pydict" where
  "small_dict ks =
     \<lparr>ma_mask = 7, ma_table = map (\<lambda>j. List.find (\<lambda>k. slot8 k = j) ks) [0..<8],
      ma_used = length ks\<rparr>"

section \<open>Example data\<close>

definition sony_t99 :: json where
  "sony_t99 = [''manufacturer'' \<mapsto> ''Sony'', ''model'' \<mapsto> ''T99'', ''product_name'' \<mapsto> ''Sony_T99'']"

definition canon_ixus_300 :: json where
  "canon_ixus_300 = [''manufacturer'' \<mapsto> ''Canon'', ''family'' \<mapsto> ''IXUS'', ''model'' \<mapsto> ''300'',
     ''product_name'' \<mapsto> ''Canon_IXUS_300'']"

definition nikon_listing :: json where
  "nikon_listing = [''manufacturer'' \<mapsto> ''Nikon'', ''title'' \<mapsto> ''Nikon D90'']"

definition sony_listing :: json where
  "sony_listing = [''manufacturer'' \<mapsto> ''Sony'', ''title'' \<mapsto> ''Sony T99 silver'']"

definition sony_catalog :: "manufacturer list" where
  "sony_catalog = [Manufacturer ''sony'', Manufacturer ''sony ericsson'']"

definition start :: matcher where
  "start = \<lparr>matches = Map.empty, key_order = [], calls = []\<rparr>"

definition acme_pro_x100 :: json where
  "acme_pro_x100 = [''manufacturer'' \<mapsto> ''Acme'', ''family'' \<mapsto> ''Pro'', ''model'' \<mapsto> ''X100'',
     ''product_name'' \<mapsto> ''Acme Pro X100'']"

definition acme_z5 :: json where
  "acme_z5 = [''manufacturer'' \<mapsto> ''Acme'', ''model'' \<mapsto> ''Z5'', ''product_name'' \<mapsto> ''Acme Z5'']"

definition black_x100 :: json where
  "black_x100 = [''manufacturer'' \<mapsto> ''ACME'', ''title'' \<mapsto> ''Acme Pro X100 Black'']"

definition black_x1000 :: json where
  "black_x1000 = [''manufacturer'' \<mapsto> ''ACME'', ''title'' \<mapsto> ''Acme Pro X1000 Black'']"

definition pro_z5 :: json where
  "pro_z5 = [''manufacturer'' \<mapsto> ''ACME'', ''title'' \<mapsto> ''Acme Pro Z5'']"

text \<open>The manufacturer \<open>acme\<close> of the index built from the two Acme records.\<close>

definition acme :: manufacturer where
  "acme = (case prepare_products_data [acme_pro_x100, acme_z5] of Inl e \<Rightarrow> Manufacturer [] | Inr ms \<Rightarrow> ms ! 0)"

definition no_model :: json where
  "no_model = [''manufacturer'' \<mapsto> ''Acme'', ''product_name'' \<mapsto> ''Acme Z6'']"


text \<open>The indexes built from the record \<open>sony_t99\<close> and from the record \<open>acme_pro_x100\<close>.\<close>

definition sony_index :: "manufacturer list" where
  "sony_index = (case prepare_products_data [sony_t99] of Inl e \<Rightarrow> [] | Inr ms \<Rightarrow> ms)"

definition acme_index :: "manufacturer list" where
  "acme_index = (case prepare_products_data [acme_pro_x100] of Inl e \<Rightarrow> [] | Inr ms \<Rightarrow> ms)"



section \<open>Normalization\<close>

lemma of_char_215: "(of_char c :: nat) = 215 \<longleftrightarrow> c = CHR 0xD7"
proof -
  have e: "(215::nat) = of_char (CHR 0xD7)" by simp
  show ?thesis unfolding e by (rule of_char_eq_iff)
qed

lemma is_upper_iff:
  "is_upper c \<longleftrightarrow>
     (65 \<le> (of_char c :: nat) \<and> (of_char c :: nat) \<le> 90)
     \<or> (192 \<le> (of_char c :: nat) \<and> (of_char c :: nat) \<le> 222 \<and> (of_char c :: nat) \<noteq> 215)"
  unfolding of_char_215 by (simp add: is_upper_def less_eq_char_def)

lemma of_char_lower_char:
  "(of_char (lower_char c) :: nat) = (if is_upper c then of_char c + 32 else of_char c)"
proof (cases "is_upper c")
  case True
  then have "(of_char c :: nat) + 32 < 256" by (auto simp: is_upper_iff)
  then have "(of_char c + 32 :: nat) mod 256 = of_char c + 32" by simp
  then show ?thesis using True by (simp add: lower_char_def)
next
  case False
  then show ?thesis by (simp add: lower_char_def)
qed

lemma lower_char_not_upper: "\<not> is_upper (lower_char c)"
proof (cases "is_upper c")
  case True
  then show ?thesis
    unfolding is_upper_iff[of "lower_char c"] of_char_lower_char
    by (auto simp: is_upper_iff)
next
  case False
  then show ?thesis by (simp add: lower_char_def)
qed

lemma lower_char_idem: "lower_char (lower_char c) = lower_char c"
  using lower_char_not_upper[of c] by (simp add: lower_char_def[of "lower_char c"])

lemma case_pair_lower: "case_pair u l \<Longrightarrow> lower_char u = l \<and> lower_char l = l"
proof -
  assume a: "case_pair u l"
  then have u: "is_upper u" by (auto simp: case_pair_def is_upper_iff)
  from a have "\<not> is_upper l" by (auto simp: case_pair_def is_upper_iff)
  then have 2: "lower_char l = l" by (simp add: lower_char_def)
  from a u have "(of_char (lower_char u) :: nat) = of_char l"
    by (simp add: of_char_lower_char case_pair_def)
  then have "lower_char u = l" by (simp only: of_char_eq_iff)
  with 2 show ?thesis by simp
qed

lemma same_letter_lower: "same_letter c d \<Longrightarrow> lower_char c = lower_char d"
  unfolding same_letter_def using case_pair_lower by metis

lemma str_lower_same_letters: "list_all2 same_letter a b \<Longrightarrow> str_lower a = str_lower b"
  unfolding str_lower_def
  by (induction rule: list_all2_induct) (simp_all add: same_letter_lower)

lemma same_letter_lower_char: "same_letter c (lower_char c)"
proof (cases "is_upper c")
  case True
  then have "case_pair c (lower_char c)"
    unfolding case_pair_def of_char_lower_char by (simp add: is_upper_iff)
  then show ?thesis by (simp add: same_letter_def)
next
  case False
  then show ?thesis by (simp add: lower_char_def same_letter_def)
qed

lemma str_lower_letters:
  "list_all2 same_letter s (str_lower s) \<and> list_all (\<lambda>c. \<not> is_upper c) (str_lower s)"
  unfolding str_lower_def
  by (induction s) (simp_all add: same_letter_lower_char lower_char_not_upper)

text \<open>
  C7. Normalizing twice is normalizing once. Normalization is case-insensitive: two
  strings that differ in the case of their letters only normalize to the same string,
  which differs from them in case only and has no upper-case letter; so do \<open>ABC\<close> and
  \<open>abc\<close>. An absent value and the empty string are left as they are.
\<close>

theorem normalize_idempotent_case_insensitive:
  "normalize (normalize s) = normalize s
   \<and> (list_all2 same_letter a b \<longrightarrow> normalize (Some a) = normalize (Some b))
   \<and> (\<exists>a'. normalize (Some a) = Some a' \<and> list_all2 same_letter a a'
          \<and> list_all (\<lambda>c. \<not> is_upper c) a')
   \<and> normalize (Some ''ABC'') = normalize (Some ''abc'')
   \<and> normalize None = None
   \<and> normalize (Some []) = Some []"
proof (intro conjI impI)
  show "normalize (normalize s) = normalize s"
    by (cases s) (simp_all add: str_lower_def lower_char_idem)
  show "normalize (Some a) = normalize (Some b)" if "list_all2 same_letter a b"
    using that by (simp add: str_lower_same_letters)
  show "\<exists>a'. normalize (Some a) = Some a' \<and> list_all2 same_letter a a'
          \<and> list_all (\<lambda>c. \<not> is_upper c) a'"
    using str_lower_letters[of a] by simp
  show "normalize (Some ''ABC'') = normalize (Some ''abc'')"
    by code_simp
  show "normalize None = None"
    by simp
  show "normalize (Some []) = Some []"
    by (simp add: str_lower_def)
qed

theorem normalize_idempotent_case_insensitive_witness:
  "list_all2 same_letter ''Sony Ericsson'' ''SONY ericsson''
   \<and> normalize (Some ''Sony Ericsson'') = normalize (Some ''SONY ericsson'')
   \<and> normalize (Some ''SONY ericsson'') = Some ''sony ericsson''
   \<and> list_all2 same_letter [CHR 0xC9, CHR ''t''] [CHR 0xE9, CHR ''T'']
   \<and> normalize (Some [CHR 0xC9, CHR ''t'']) = normalize (Some [CHR 0xE9, CHR ''T''])"
proof -
  have 1: "list_all2 same_letter ''Sony Ericsson'' ''SONY ericsson''" by code_simp
  have 2: "list_all2 same_letter [CHR 0xC9, CHR ''t''] [CHR 0xE9, CHR ''T'']" by code_simp
  have 3: "normalize (Some ''SONY ericsson'') = Some ''sony ericsson''" by code_simp
  from normalize_idempotent_case_insensitive[where a = "''Sony Ericsson''" and b = "''SONY ericsson''"] 1
  have 4: "normalize (Some ''Sony Ericsson'') = normalize (Some ''SONY ericsson'')" by blast
  from normalize_idempotent_case_insensitive[where a = "[CHR 0xC9, CHR ''t'']" and b = "[CHR 0xE9, CHR ''T'']"] 2
  have 5: "normalize (Some [CHR 0xC9, CHR ''t'']) = normalize (Some [CHR 0xE9, CHR ''T''])" by blast
  from 1 2 3 4 5 show ?thesis by blast
qed

lemma str_lower_idem: "str_lower (str_lower s) = str_lower s"
  by (simp add: str_lower_def lower_char_idem)

lemma str_lower_Nil_iff: "str_lower s = [] \<longleftrightarrow> s = []"
  by (simp add: str_lower_def)

section \<open>The result dictionary\<close>

lemma grows_refl: "grows m m"
  by (simp add: grows_def)

lemma grows_trans: "grows a b \<Longrightarrow> grows b c \<Longrightarrow> grows a c"
  unfolding grows_def by (metis append.assoc)

lemma add_to_result_same:
  "add_to_result k l ms k = Some ((case ms k of None \<Rightarrow> [] | Some ls \<Rightarrow> ls) @ [l])"
  by (simp add: add_to_result_def split: option.splits)

lemma add_to_result_other: "k' \<noteq> k \<Longrightarrow> add_to_result k l ms k' = ms k'"
  by (simp add: add_to_result_def split: option.splits)

lemma grows_add_to_result: "grows ms (add_to_result k l ms)"
  unfolding grows_def
proof (intro allI impI)
  fix k' ls
  assume a: "ms k' = Some ls"
  show "\<exists>ext. add_to_result k l ms k' = Some (ls @ ext)"
  proof (cases "k' = k")
    case True
    then show ?thesis using a by (simp add: add_to_result_same)
  next
    case False
    then show ?thesis using a by (simp add: add_to_result_other)
  qed
qed

lemma find_product_loop_eq:
  "find_product_loop ps l t st =
     (case first_match ps t of
        None \<Rightarrow> (False, st)
      | Some p \<Rightarrow> (True, st\<lparr>matches := add_to_result (product_name p) l (matches st),
                            key_order := add_to_key_order (product_name p) st\<rparr>))"
  by (induction ps) (simp_all add: first_match_def)

lemma find_product_and_add_to_result_eq:
  "find_product_and_add_to_result ps l t st =
     (case first_match ps t of
        None \<Rightarrow> (False, st\<lparr>calls := calls st @ [ps]\<rparr>)
      | Some p \<Rightarrow> (True, st\<lparr>calls := calls st @ [ps],
                            matches := add_to_result (product_name p) l (matches st),
                            key_order := add_to_key_order (product_name p) st\<rparr>))"
  by (simp add: find_product_and_add_to_result_def find_product_loop_eq add_to_key_order_def
      split: option.splits)

lemma grows_find_product:
  "find_product_and_add_to_result ps l t st = (b, st') \<Longrightarrow> grows (matches st) (matches st')"
  by (auto simp: find_product_and_add_to_result_eq grows_refl grows_add_to_result split: option.splits)

lemma grows_families_loop:
  "families_loop fs l t st = (b, st') \<Longrightarrow> grows (matches st) (matches st')"
proof (induction fs arbitrary: st)
  case Nil
  then show ?case by (simp add: grows_refl)
next
  case (Cons f fs)
  show ?case
  proof (cases "str_in (family_name f) t")
    case False
    with Cons show ?thesis by simp
  next
    case True
    obtain b1 st1 where r: "find_product_and_add_to_result (family_products f) l t st = (b1, st1)"
      by (cases "find_product_and_add_to_result (family_products f) l t st")
    then have g1: "grows (matches st) (matches st1)" by (rule grows_find_product)
    show ?thesis
    proof (cases b1)
      case True
      with Cons.prems \<open>str_in (family_name f) t\<close> r have "st' = st1" by simp
      with g1 show ?thesis by simp
    next
      case False
      with Cons.prems \<open>str_in (family_name f) t\<close> r have "families_loop fs l t st1 = (b, st')" by simp
      then have "grows (matches st1) (matches st')" by (rule Cons.IH)
      with g1 show ?thesis by (rule grows_trans)
    qed
  qed
qed

lemma grows_match_in_manufacturer:
  "grows (matches st) (matches (match_in_manufacturer m l t st))"
proof -
  obtain b st1 where r: "families_loop (families m) l t st = (b, st1)"
    by (cases "families_loop (families m) l t st")
  then have g1: "grows (matches st) (matches st1)" by (rule grows_families_loop)
  show ?thesis
  proof (cases b)
    case True
    with r g1 show ?thesis by (simp add: match_in_manufacturer_def)
  next
    case False
    obtain b2 st2 where r2: "find_product_and_add_to_result (orphans_products m) l t st1 = (b2, st2)"
      by (cases "find_product_and_add_to_result (orphans_products m) l t st1")
    then have "grows (matches st1) (matches st2)" by (rule grows_find_product)
    with g1 have "grows (matches st) (matches st2)" by (rule grows_trans)
    with r r2 False show ?thesis by (simp add: match_in_manufacturer_def)
  qed
qed

lemma grows_match_listing:
  "match_listing ms st l = Inr st' \<Longrightarrow> grows (matches st) (matches st')"
  by (auto simp: match_listing_def grows_refl grows_match_in_manufacturer
      split: sum.splits option.splits)

lemma grows_match_loop:
  "match_loop ms st ls = Inr st' \<Longrightarrow> grows (matches st) (matches st')"
proof (induction ls arbitrary: st)
  case Nil
  then show ?case by (simp add: grows_refl)
next
  case (Cons l ls)
  then obtain st1 where s: "match_listing ms st l = Inr st1" and r: "match_loop ms st1 ls = Inr st'"
    by (auto split: sum.splits)
  from s have "grows (matches st) (matches st1)" by (rule grows_match_listing)
  moreover from r have "grows (matches st1) (matches st')" by (rule Cons.IH)
  ultimately show ?case by (rule grows_trans)
qed

text \<open>
  C8. Recording \<open>l1\<close> then \<open>l2\<close> under a key that is not there yet creates the key and
  leaves \<open>[l1, l2]\<close> under it, also when the two listings are equal (nothing is
  deduplicated); in general a recording appends the listing at the end of the key's list
  and leaves every other key alone; and over a run of \<open>match_listings\<close> no key is removed:
  every key keeps its list as a prefix of its later list.
\<close>

theorem aggregation_appends_and_keeps_keys:
  "(ms k = None \<longrightarrow> add_to_result k l2 (add_to_result k l1 ms) k = Some [l1, l2])
   \<and> add_to_result k l ms k = Some ((case ms k of None \<Rightarrow> [] | Some ls \<Rightarrow> ls) @ [l])
   \<and> (\<forall>k'. k' \<noteq> k \<longrightarrow> add_to_result k l ms k' = ms k')
   \<and> (match_loop idx st listings = Inr st' \<longrightarrow>
        dom (matches st) \<subseteq> dom (matches st') \<and> grows (matches st) (matches st'))"
proof (intro conjI impI allI)
  assume "ms k = None"
  then show "add_to_result k l2 (add_to_result k l1 ms) k = Some [l1, l2]"
    by (simp add: add_to_result_same)
next
  show "add_to_result k l ms k = Some ((case ms k of None \<Rightarrow> [] | Some ls \<Rightarrow> ls) @ [l])"
    by (rule add_to_result_same)
next
  fix k' assume "k' \<noteq> k"
  then show "add_to_result k l ms k' = ms k'" by (rule add_to_result_other)
next
  assume r: "match_loop idx st listings = Inr st'"
  then show "grows (matches st) (matches st')" by (rule grows_match_loop)
  show "dom (matches st) \<subseteq> dom (matches st')"
    using grows_match_loop[OF r] unfolding grows_def by blast
qed

section \<open>Manufacturer resolution\<close>

lemma bisect_left_loop_bounds:
  "lo \<le> hi \<Longrightarrow> hi \<le> length a \<Longrightarrow> \<forall>j<lo. a ! j < x \<Longrightarrow>
   \<forall>j. hi \<le> j \<and> j < length a \<longrightarrow> \<not> a ! j < x \<Longrightarrow> sorted a \<Longrightarrow>
   bisect_left_loop a x lo hi \<le> length a
   \<and> (\<forall>j < bisect_left_loop a x lo hi. a ! j < x)
   \<and> (\<forall>j. bisect_left_loop a x lo hi \<le> j \<and> j < length a \<longrightarrow> \<not> a ! j < x)"
proof (induction a x lo hi rule: bisect_left_loop.induct)
  case (1 a x lo hi)
  show ?case
  proof (cases "lo < hi")
    case False
    with "1.prems" have "lo = hi" by simp
    moreover have "bisect_left_loop a x lo hi = lo"
      using False by (subst bisect_left_loop.simps) simp
    ultimately show ?thesis using "1.prems" by simp
  next
    case True
    define mid where "mid = (lo + hi) div 2"
    have m: "lo \<le> mid" "mid < hi" using True by (simp_all add: mid_def)
    show ?thesis
    proof (cases "a ! mid < x")
      case lt: True
      have below: "\<forall>j<mid + 1. a ! j < x"
      proof (intro allI impI)
        fix j assume "j < mid + 1"
        then have "j \<le> mid" by simp
        moreover have "mid < length a" using m "1.prems" by simp
        ultimately have "a ! j \<le> a ! mid"
          using \<open>sorted a\<close> by (simp add: sorted_iff_nth_mono)
        with lt show "a ! j < x" by simp
      qed
      have e: "bisect_left_loop a x lo hi = bisect_left_loop a x (mid + 1) hi"
        using True lt by (subst bisect_left_loop.simps) (simp add: mid_def Let_def)
      have "mid + 1 \<le> hi" using m by simp
      from "1.IH"(1)[OF True mid_def lt this "1.prems"(2) below "1.prems"(4) "1.prems"(5)]
      show ?thesis unfolding e .
    next
      case ge: False
      have above: "\<forall>j. mid \<le> j \<and> j < length a \<longrightarrow> \<not> a ! j < x"
      proof (intro allI impI)
        fix j assume "mid \<le> j \<and> j < length a"
        then have "a ! mid \<le> a ! j"
          using \<open>sorted a\<close> by (simp add: sorted_iff_nth_mono)
        with ge show "\<not> a ! j < x" by auto
      qed
      have e: "bisect_left_loop a x lo hi = bisect_left_loop a x lo mid"
        using True ge by (subst bisect_left_loop.simps) (simp add: mid_def Let_def)
      have "mid \<le> length a" using m "1.prems" by simp
      from "1.IH"(2)[OF True mid_def ge m(1) this "1.prems"(3) above "1.prems"(5)]
      show ?thesis unfolding e .
    qed
  qed
qed

lemma filter_eq_take:
  "r \<le> length a \<Longrightarrow> \<forall>j<r. P (a ! j) \<Longrightarrow> \<forall>j. r \<le> j \<and> j < length a \<longrightarrow> \<not> P (a ! j) \<Longrightarrow>
   filter P a = take r a"
proof -
  assume r: "r \<le> length a" and lo: "\<forall>j<r. P (a ! j)" and hi: "\<forall>j. r \<le> j \<and> j < length a \<longrightarrow> \<not> P (a ! j)"
  have t: "filter P (take r a) = take r a"
  proof (rule filter_True)
    show "\<forall>x\<in>set (take r a). P x"
      using lo r by (auto simp: in_set_conv_nth)
  qed
  have d: "filter P (drop r a) = []"
  proof (rule filter_False)
    show "\<forall>x\<in>set (drop r a). \<not> P x"
    proof
      fix y assume "y \<in> set (drop r a)"
      then obtain i where "i < length (drop r a)" "y = drop r a ! i"
        by (auto simp: in_set_conv_nth)
      then have "y = a ! (r + i)" "r + i < length a" using r by simp_all
      then show "\<not> P y" using hi by simp
    qed
  qed
  have "filter P a = filter P (take r a @ drop r a)" by simp
  also have "\<dots> = take r a" by (simp only: filter_append t d append_Nil2)
  finally show ?thesis .
qed

lemma bisect_left_insertion_point:
  assumes "sorted (map manufacturer_name ms)"
  shows "bisect_left ms x = insertion_point (map manufacturer_name ms) x"
proof -
  let ?a = "map manufacturer_name ms"
  let ?r = "bisect_left_loop ?a x 0 (length ms)"
  have b: "?r \<le> length ?a \<and> (\<forall>j < ?r. ?a ! j < x)
       \<and> (\<forall>j. ?r \<le> j \<and> j < length ?a \<longrightarrow> \<not> ?a ! j < x)"
  proof (rule bisect_left_loop_bounds)
    show "0 \<le> length ms" by simp
    show "length ms \<le> length ?a" by simp
    show "\<forall>j<0. ?a ! j < x" by simp
    show "\<forall>j. length ms \<le> j \<and> j < length ?a \<longrightarrow> \<not> ?a ! j < x" by auto
    show "sorted ?a" by (rule assms)
  qed
  have "filter (\<lambda>y. y < x) ?a = take ?r ?a"
    using filter_eq_take[of ?r ?a "\<lambda>y. y < x"] b by blast
  then have "insertion_point ?a x = ?r"
    using b by (simp add: insertion_point_def)
  then show ?thesis by (simp add: bisect_left_def)
qed

lemma str_in_Nil: "str_in [] t"
  by (cases t) simp_all

lemma str_in_sublist: "str_in s t = sublist s t"
  by (induction t) (auto simp: sublist_Cons_right)

text \<open>
  C2. On a sequence of manufacturers sorted by name, the manufacturer of a listing is found
  from its normalized manufacturer string \<open>n\<close> and the insertion point \<open>i\<close> of \<open>n\<close>:
  the manufacturer at \<open>i\<close> when \<open>i\<close> is in range and \<open>n\<close> occurs in its name, else the
  one at \<open>i - 1\<close> when there is one and \<open>n\<close> occurs in its name, else none. With none,
  the listing leaves the state as it was: nothing is recorded and no product resolution
  is called. With the manufacturers \<open>sony\<close> and \<open>sony ericsson\<close>, \<open>sony\<close> resolves to
  \<open>sony\<close>.
\<close>

theorem manufacturer_resolution:
  "sorted (map manufacturer_name ms) \<Longrightarrow>
   (let n = str_lower mf; i = insertion_point (map manufacturer_name ms) n in
      find_manufacturer ms n =
        (if i < length ms \<and> str_in n (manufacturer_name (ms ! i)) then Some (ms ! i)
         else if 0 < i \<and> str_in n (manufacturer_name (ms ! (i - 1))) then Some (ms ! (i - 1))
         else None))
   \<and> (listing ''manufacturer'' = Some mf \<and> listing ''title'' = Some ti
        \<and> find_manufacturer ms (str_lower mf) = None
        \<longrightarrow> match_listing ms st listing = Inr st)
   \<and> find_manufacturer [Manufacturer ''sony'', Manufacturer ''sony ericsson''] (str_lower ''sony'')
        = Some (Manufacturer ''sony'')"
proof (intro conjI impI)
  assume s: "sorted (map manufacturer_name ms)"
  show "let n = str_lower mf; i = insertion_point (map manufacturer_name ms) n in
      find_manufacturer ms n =
        (if i < length ms \<and> str_in n (manufacturer_name (ms ! i)) then Some (ms ! i)
         else if 0 < i \<and> str_in n (manufacturer_name (ms ! (i - 1))) then Some (ms ! (i - 1))
         else None)"
    by (simp add: find_manufacturer_def Let_def bisect_left_insertion_point[OF s])
next
  assume "listing ''manufacturer'' = Some mf \<and> listing ''title'' = Some ti
        \<and> find_manufacturer ms (str_lower mf) = None"
  then show "match_listing ms st listing = Inr st"
    by (simp add: match_listing_def getitem_def)
next
  show "find_manufacturer [Manufacturer ''sony'', Manufacturer ''sony ericsson''] (str_lower ''sony'')
        = Some (Manufacturer ''sony'')"
    by code_simp
qed

theorem manufacturer_resolution_witness:
  "sorted (map manufacturer_name sony_catalog)
   \<and> insertion_point (map manufacturer_name sony_catalog) (str_lower ''Sony'') = 0
   \<and> find_manufacturer sony_catalog (str_lower ''Sony'') = Some (sony_catalog ! 0)
   \<and> insertion_point (map manufacturer_name sony_catalog) (str_lower ''Nikon'') = 0
   \<and> find_manufacturer sony_catalog (str_lower ''Nikon'') = None
   \<and> match_listing sony_catalog start nikon_listing = Inr start"
proof -
  have s: "sorted (map manufacturer_name sony_catalog)" by code_simp
  have i1: "insertion_point (map manufacturer_name sony_catalog) (str_lower ''Sony'') = 0"
    by code_simp
  have i2: "insertion_point (map manufacturer_name sony_catalog) (str_lower ''Nikon'') = 0"
    by code_simp
  have c1: "str_in (str_lower ''Sony'') (manufacturer_name (sony_catalog ! 0))" by code_simp
  have c2: "\<not> str_in (str_lower ''Nikon'') (manufacturer_name (sony_catalog ! 0))" by code_simp
  have l: "length sony_catalog = 2" by code_simp
  note r1 = manufacturer_resolution[OF s, where mf = "''Sony''"]
  note r2 = manufacturer_resolution[OF s, where mf = "''Nikon''" and listing = nikon_listing
      and ti = "''Nikon D90''" and st = start]
  from r1 have f1: "find_manufacturer sony_catalog (str_lower ''Sony'') = Some (sony_catalog ! 0)"
    by (simp add: Let_def i1 c1 l)
  from r2 have f2: "find_manufacturer sony_catalog (str_lower ''Nikon'') = None"
    by (simp add: Let_def i2 c2 l)
  have "nikon_listing ''manufacturer'' = Some ''Nikon'' \<and> nikon_listing ''title'' = Some ''Nikon D90''"
    by (simp add: nikon_listing_def)
  with r2 f2 have "match_listing sony_catalog start nikon_listing = Inr start"
    by blast
  with s i1 i2 f1 f2 show ?thesis by simp
qed

lemma add_to_manufacturers_nonempty: "add_to_manufacturers ms n p \<noteq> []"
  by (cases ms) simp_all

lemma add_record_nonempty: "add_record ms r = Inr ms' \<Longrightarrow> ms' \<noteq> []"
  by (auto simp: add_record_def add_to_manufacturers_nonempty split: sum.splits)

lemma add_records_nonempty:
  "add_records ms rs = Inr ms' \<Longrightarrow> ms \<noteq> [] \<or> rs \<noteq> [] \<Longrightarrow> ms' \<noteq> []"
proof (induction rs arbitrary: ms)
  case Nil
  then show ?case by simp
next
  case (Cons r rs)
  then obtain ms1 where a: "add_record ms r = Inr ms1" and b: "add_records ms1 rs = Inr ms'"
    by (auto split: sum.splits)
  from a have "ms1 \<noteq> []" by (rule add_record_nonempty)
  then have "ms1 \<noteq> [] \<or> rs \<noteq> []" by simp
  with b show ?case by (rule Cons.IH)
qed

lemma prepare_products_data_sorted:
  "prepare_products_data recs = Inr ms \<Longrightarrow> sorted (map manufacturer_name ms)"
  by (auto simp: prepare_products_data_def split: sum.splits)

lemma prepare_products_data_nonempty:
  "prepare_products_data recs = Inr ms \<Longrightarrow> recs \<noteq> [] \<Longrightarrow> ms \<noteq> []"
proof -
  assume p: "prepare_products_data recs = Inr ms" and n: "recs \<noteq> []"
  then obtain ms0 where a: "add_records [] recs = Inr ms0" and m: "ms = sort_key manufacturer_name ms0"
    by (auto simp: prepare_products_data_def split: sum.splits)
  from n have "[] \<noteq> ([] :: manufacturer list) \<or> recs \<noteq> []" by simp
  with a have "ms0 \<noteq> []" by (rule add_records_nonempty)
  then have "length ms \<noteq> 0" using m by simp
  then show ?thesis by simp
qed

lemma sorted_hd_least:
  "sorted (map f ms) \<Longrightarrow> m \<in> set ms \<Longrightarrow> f (hd ms) \<le> f m"
  by (cases ms) auto

lemma insertion_point_Nil: "insertion_point xs [] = 0"
  by (simp add: insertion_point_def)

text \<open>
  C10. In the index built from a catalog with at least one record, a listing whose
  manufacturer string normalizes to the empty string resolves to the first manufacturer
  of the sorted sequence, whose name is the least.
\<close>

theorem empty_manufacturer_resolves_to_least:
  "prepare_products_data recs = Inr ms \<Longrightarrow> recs \<noteq> [] \<Longrightarrow> str_lower mf = [] \<Longrightarrow>
   ms \<noteq> [] \<and> find_manufacturer ms (str_lower mf) = Some (hd ms)
   \<and> (\<forall>m\<in>set ms. manufacturer_name (hd ms) \<le> manufacturer_name m)"
proof (intro conjI ballI)
  assume p: "prepare_products_data recs = Inr ms" and n: "recs \<noteq> []" and e: "str_lower mf = []"
  from p have s: "sorted (map manufacturer_name ms)" by (rule prepare_products_data_sorted)
  from p n show ne: "ms \<noteq> []" by (rule prepare_products_data_nonempty)
  have "bisect_left ms [] = 0"
    by (simp add: bisect_left_insertion_point[OF s] insertion_point_Nil)
  then show "find_manufacturer ms (str_lower mf) = Some (hd ms)"
    using ne by (simp add: e find_manufacturer_def str_in_Nil hd_conv_nth)
  fix m assume "m \<in> set ms"
  with s show "manufacturer_name (hd ms) \<le> manufacturer_name m" by (rule sorted_hd_least)
qed

theorem empty_manufacturer_resolves_to_least_witness:
  "\<exists>ms. prepare_products_data [sony_t99, canon_ixus_300] = Inr ms
     \<and> [sony_t99, canon_ixus_300] \<noteq> [] \<and> str_lower [] = []
     \<and> find_manufacturer ms (str_lower []) = Some (hd ms)
     \<and> manufacturer_name (hd ms) = ''canon''"
proof -
  have "(case prepare_products_data [sony_t99, canon_ixus_300] of Inl e \<Rightarrow> False
    | Inr ms \<Rightarrow> map manufacturer_name ms = [''canon'', ''sony''])"
    by code_simp
  then obtain ms where p: "prepare_products_data [sony_t99, canon_ixus_300] = Inr ms"
    and n: "map manufacturer_name ms = [''canon'', ''sony'']"
    by (auto split: sum.splits)
  have ne: "[sony_t99, canon_ixus_300] \<noteq> []" by simp
  have e: "str_lower [] = []" by (simp add: str_lower_def)
  from n have h: "manufacturer_name (hd ms) = ''canon''" by (cases ms) auto
  from empty_manufacturer_resolves_to_least[OF p ne e]
  have "find_manufacturer ms (str_lower []) = Some (hd ms)" by simp
  with p ne e h show ?thesis by blast
qed

section \<open>Family and product resolution\<close>

lemma first_match_append:
  "first_match (ps @ qs) t = (case first_match ps t of None \<Rightarrow> first_match qs t | Some p \<Rightarrow> Some p)"
  by (induction ps) (simp_all add: first_match_def)

lemma first_match_Nil: "first_match [] t = None"
  by (simp add: first_match_def)

lemma first_match_concat_None:
  "first_match (concat (map family_products hs)) t = None
   \<longleftrightarrow> list_all (\<lambda>f. first_match (family_products f) t = None) hs"
  by (induction hs) (auto simp: first_match_Nil first_match_append split: option.splits)

lemma dropWhile_Nil_iff_list_all: "dropWhile P xs = [] \<longleftrightarrow> list_all P xs"
  by (induction xs) auto

lemma families_loop_found:
  "fst (families_loop fs l t st) =
     (dropWhile (\<lambda>f. first_match (family_products f) t = None)
        (filter (\<lambda>f. str_in (family_name f) t) fs) \<noteq> [])"
  by (induction fs arbitrary: st)
     (auto simp: find_product_and_add_to_result_eq split: option.splits)

lemma families_loop_calls:
  "calls (snd (families_loop fs l t st)) =
     calls st @ map family_products
       (takeWhile (\<lambda>f. first_match (family_products f) t = None)
          (filter (\<lambda>f. str_in (family_name f) t) fs)
        @ take 1 (dropWhile (\<lambda>f. first_match (family_products f) t = None)
          (filter (\<lambda>f. str_in (family_name f) t) fs)))"
  by (induction fs arbitrary: st)
     (auto simp: find_product_and_add_to_result_eq split: option.splits)

lemma families_loop_matches:
  "matches (snd (families_loop fs l t st)) =
     (case first_match (concat (map family_products (filter (\<lambda>f. str_in (family_name f) t) fs))) t of
        None \<Rightarrow> matches st
      | Some p \<Rightarrow> add_to_result (product_name p) l (matches st))"
  by (induction fs arbitrary: st)
     (auto simp: find_product_and_add_to_result_eq first_match_append first_match_Nil
        split: option.splits)

lemma add_to_families_names:
  "map family_name (add_to_families fs n p) =
     (if n \<in> set (map family_name fs) then map family_name fs
      else map family_name fs @ [str_lower n])"
  by (induction fs) (auto simp: family_add_product_def Family_def)

text \<open>
  C3. For a resolved manufacturer and a title, let \<open>hits\<close> be the families whose name
  occurs in the title, in the order of the manufacturer's family list, \<open>failed\<close> the
  hits before the first one with a product that matches, and \<open>won\<close> that first one (if
  any). The candidate lists handed to product resolution are the product lists of
  \<open>failed\<close>, then of \<open>won\<close>, and then the orphan list exactly when there is no \<open>won\<close>,
  that is when no family name occurs in the title or every hit failed. The listing is
  recorded under the first matching product of the hits' lists followed by the orphan
  list, and not at all when there is none. The family list is in first-seen order:
  adding a product leaves the families' names as they are when its family is among
  them, and appends the new family at the end otherwise.
\<close>

theorem family_resolution_order:
  "(let hits = filter (\<lambda>f. str_in (family_name f) title) (families m);
       failed = takeWhile (\<lambda>f. first_match (family_products f) title = None) hits;
       won = take 1 (dropWhile (\<lambda>f. first_match (family_products f) title = None) hits)
   in calls (match_in_manufacturer m listing title st) =
        calls st @ map family_products (failed @ won)
          @ (if won = [] then [orphans_products m] else [])
      \<and> (won = [] \<longleftrightarrow>
           hits = [] \<or> list_all (\<lambda>f. first_match (family_products f) title = None) hits)
      \<and> matches (match_in_manufacturer m listing title st) =
          (case first_match (concat (map family_products hits) @ orphans_products m) title of
             None \<Rightarrow> matches st
           | Some p \<Rightarrow> add_to_result (product_name p) listing (matches st)))
   \<and> map family_name (add_to_families fs n p) =
       (if n \<in> set (map family_name fs) then map family_name fs
        else map family_name fs @ [str_lower n])"
proof -
  let ?P = "\<lambda>f. str_in (family_name f) title"
  let ?N = "\<lambda>f. first_match (family_products f) title = None"
  let ?hits = "filter ?P (families m)"
  let ?won = "take 1 (dropWhile ?N ?hits)"
  obtain b st1 where r: "families_loop (families m) listing title st = (b, st1)"
    by (cases "families_loop (families m) listing title st")
  have b: "b = (dropWhile ?N ?hits \<noteq> [])"
    using families_loop_found[of "families m" listing title st] r by simp
  have w: "(?won = []) = (\<not> b)"
    unfolding b by (cases "dropWhile ?N ?hits") simp_all
  have c1: "calls st1 = calls st @ map family_products (takeWhile ?N ?hits @ ?won)"
    using families_loop_calls[of "families m" listing title st] r by simp
  have m1: "matches st1 =
     (case first_match (concat (map family_products ?hits)) title of
        None \<Rightarrow> matches st | Some p \<Rightarrow> add_to_result (product_name p) listing (matches st))"
    using families_loop_matches[of "families m" listing title st] r by simp
  have A: "calls (match_in_manufacturer m listing title st) =
        calls st @ map family_products (takeWhile ?N ?hits @ ?won)
          @ (if ?won = [] then [orphans_products m] else [])"
  proof (cases b)
    case True
    then show ?thesis using r c1 w by (simp add: match_in_manufacturer_def)
  next
    case False
    then show ?thesis using r c1 w
      by (simp add: match_in_manufacturer_def find_product_and_add_to_result_eq
          split: option.splits)
  qed
  have B: "(?won = []) = (?hits = [] \<or> list_all ?N ?hits)"
  proof -
    have "(?won = []) = (dropWhile ?N ?hits = [])"
      by (cases "dropWhile ?N ?hits") simp_all
    also have "\<dots> = list_all ?N ?hits" by (rule dropWhile_Nil_iff_list_all)
    also have "\<dots> = (?hits = [] \<or> list_all ?N ?hits)" by auto
    finally show ?thesis .
  qed
  have C: "matches (match_in_manufacturer m listing title st) =
          (case first_match (concat (map family_products ?hits) @ orphans_products m) title of
             None \<Rightarrow> matches st
           | Some p \<Rightarrow> add_to_result (product_name p) listing (matches st))"
  proof (cases b)
    case True
    then have "first_match (concat (map family_products ?hits)) title \<noteq> None"
      unfolding b first_match_concat_None dropWhile_Nil_iff_list_all by simp
    then show ?thesis using True r m1
      by (auto simp: match_in_manufacturer_def first_match_append split: option.splits)
  next
    case False
    then have n: "first_match (concat (map family_products ?hits)) title = None"
      unfolding b first_match_concat_None dropWhile_Nil_iff_list_all by simp
    then have "matches st1 = matches st" using m1 by simp
    then show ?thesis using False r n
      by (simp add: match_in_manufacturer_def find_product_and_add_to_result_eq
          first_match_append split: option.splits)
  qed
  have D: "map family_name (add_to_families fs n p) =
       (if n \<in> set (map family_name fs) then map family_name fs
        else map family_name fs @ [str_lower n])"
    by (rule add_to_families_names)
  from A B C D show ?thesis by (simp only: Let_def)
qed

theorem family_resolution_order_witness:
  "calls (match_in_manufacturer acme pro_z5 (str_lower ''Acme Pro Z5'') start)
     = [family_products (families acme ! 0), orphans_products acme]
   \<and> matches (match_in_manufacturer acme pro_z5 (str_lower ''Acme Pro Z5'') start)
     = add_to_result ''acme z5'' pro_z5 Map.empty
   \<and> calls (match_in_manufacturer acme black_x100 (str_lower ''Acme Pro X100 Black'') start)
     = [family_products (families acme ! 0)]
   \<and> matches (match_in_manufacturer acme black_x100 (str_lower ''Acme Pro X100 Black'') start)
     = add_to_result ''acme pro x100'' black_x100 Map.empty"
proof -
  let ?N = "\<lambda>t f. first_match (family_products f) t = None"
  let ?hits = "\<lambda>t. filter (\<lambda>f. str_in (family_name f) t) (families acme)"
  let ?t1 = "str_lower ''Acme Pro Z5''"
  let ?t2 = "str_lower ''Acme Pro X100 Black''"
  have h1: "?hits ?t1 = [families acme ! 0]" by code_simp
  have h2: "?hits ?t2 = [families acme ! 0]" by code_simp
  have n1: "first_match (family_products (families acme ! 0)) ?t1 = None" by code_simp
  have n2: "first_match (family_products (families acme ! 0)) ?t2 \<noteq> None" by code_simp
  have f1: "map_option product_name (first_match (concat (map family_products [families acme ! 0]) @ orphans_products acme) ?t1)
      = Some ''acme z5''" by code_simp
  have f2: "map_option product_name (first_match (concat (map family_products [families acme ! 0]) @ orphans_products acme) ?t2)
      = Some ''acme pro x100''" by code_simp
  have s: "calls start = []" "matches start = Map.empty" by (simp_all add: start_def)
  note a = family_resolution_order[where m = acme and title = ?t1 and listing = pro_z5
      and st = start, unfolded Let_def h1]
  note b = family_resolution_order[where m = acme and title = ?t2 and listing = black_x100
      and st = start, unfolded Let_def h2]
  from a n1 f1 s have 1: "calls (match_in_manufacturer acme pro_z5 ?t1 start)
     = [family_products (families acme ! 0), orphans_products acme]"
    and 2: "matches (match_in_manufacturer acme pro_z5 ?t1 start)
     = add_to_result ''acme z5'' pro_z5 Map.empty"
    by (auto split: option.splits)
  from b n2 f2 s have 3: "calls (match_in_manufacturer acme black_x100 ?t2 start)
     = [family_products (families acme ! 0)]"
    and 4: "matches (match_in_manufacturer acme black_x100 ?t2 start)
     = add_to_result ''acme pro x100'' black_x100 Map.empty"
    by (auto split: option.splits)
  from 1 2 3 4 show ?thesis by blast
qed

section \<open>Errors\<close>

lemma add_record_missing:
  "r ''manufacturer'' = None \<or> r ''product_name'' = None \<or> r ''model'' = None \<Longrightarrow>
   \<exists>k. add_record ms r = Inl (KeyError k) \<and> r k = None"
  by (auto simp: add_record_def getitem_def split: option.splits)

lemma add_records_missing:
  "\<exists>r\<in>set recs. r ''manufacturer'' = None \<or> r ''product_name'' = None \<or> r ''model'' = None \<Longrightarrow>
   \<exists>e. add_records ms recs = Inl e"
proof (induction recs arbitrary: ms)
  case Nil
  then show ?case by simp
next
  case (Cons r recs)
  show ?case
  proof (cases "add_record ms r")
    case (Inl e)
    then show ?thesis by simp
  next
    case (Inr ms1)
    have "\<not> (r ''manufacturer'' = None \<or> r ''product_name'' = None \<or> r ''model'' = None)"
    proof
      assume "r ''manufacturer'' = None \<or> r ''product_name'' = None \<or> r ''model'' = None"
      then obtain k where "add_record ms r = Inl (KeyError k)"
        using add_record_missing by blast
      with Inr show False by simp
    qed
    with Cons.prems
    have "\<exists>r\<in>set recs. r ''manufacturer'' = None \<or> r ''product_name'' = None \<or> r ''model'' = None"
      by auto
    then obtain e where "add_records ms1 recs = Inl e"
      using Cons.IH by blast
    with Inr show ?thesis by simp
  qed
qed

lemma manufacturer_name_add_product: "manufacturer_name (add_product m p) = manufacturer_name m"
  by (simp add: add_product_def Let_def split: option.splits)

lemma find_add_to_manufacturers:
  "List.find (\<lambda>m. manufacturer_name m = str_lower mf) (add_to_manufacturers ms (str_lower mf) p) =
     Some (add_product
       (case List.find (\<lambda>m. manufacturer_name m = str_lower mf) ms of
          None \<Rightarrow> Manufacturer (str_lower mf) | Some m \<Rightarrow> m) p)"
  by (induction ms)
     (simp_all add: manufacturer_name_add_product Manufacturer_def str_lower_idem)

lemma add_product_orphan:
  "product_family p = None \<Longrightarrow>
   orphans_products (add_product m p) = orphans_products m @ [p]
   \<and> families (add_product m p) = families m"
  by (simp add: add_product_def)

lemma Product_family: "Product pn fam md = Inr p \<Longrightarrow> product_family p = normalize fam"
  by (auto simp: Product_def split: sum.splits if_splits)

lemma match_listing_total:
  "l ''manufacturer'' \<noteq> None \<Longrightarrow> l ''title'' \<noteq> None \<Longrightarrow> \<exists>st'. match_listing ms st l = Inr st'"
  by (auto simp: match_listing_def getitem_def split: option.splits)

lemma match_loop_total:
  "\<forall>l\<in>set ls. l ''manufacturer'' \<noteq> None \<and> l ''title'' \<noteq> None \<Longrightarrow> \<exists>st'. match_loop ms st ls = Inr st'"
proof (induction ls arbitrary: st)
  case Nil
  then show ?case by simp
next
  case (Cons l ls)
  then obtain st1 where "match_listing ms st l = Inr st1"
    using match_listing_total[of l ms st] by auto
  moreover obtain st' where "match_loop ms st1 ls = Inr st'"
    using Cons by fastforce
  ultimately show ?case by simp
qed

lemma prepare_products_data_missing_field:
  "\<exists>r\<in>set recs. r ''manufacturer'' = None \<or> r ''product_name'' = None \<or> r ''model'' = None \<Longrightarrow>
   \<exists>e. prepare_products_data recs = Inl e"
proof -
  assume "\<exists>r\<in>set recs. r ''manufacturer'' = None \<or> r ''product_name'' = None \<or> r ''model'' = None"
  then obtain e where "add_records [] recs = Inl e"
    using add_records_missing by blast
  then show ?thesis by (simp add: prepare_products_data_def)
qed

lemma add_record_without_family:
  assumes "r ''manufacturer'' = Some mf" and "r ''product_name'' = Some pn"
    and "r ''model'' = Some md" and "r ''family'' = None" and "Product pn None md = Inr p"
  shows "add_record ms r = Inr (add_to_manufacturers ms (str_lower mf) p)"
    and "\<exists>m'. List.find (\<lambda>m. manufacturer_name m = str_lower mf)
                     (add_to_manufacturers ms (str_lower mf) p) = Some m'
           \<and> orphans_products m' =
               (case List.find (\<lambda>m. manufacturer_name m = str_lower mf) ms of
                  None \<Rightarrow> [] | Some m \<Rightarrow> orphans_products m) @ [p]"
proof -
  show "add_record ms r = Inr (add_to_manufacturers ms (str_lower mf) p)"
    using assms by (simp add: add_record_def getitem_def)
  from assms have f: "product_family p = None"
    using Product_family[of pn None md p] by simp
  let ?old = "List.find (\<lambda>m. manufacturer_name m = str_lower mf) ms"
  let ?m = "add_product (case ?old of None \<Rightarrow> Manufacturer (str_lower mf) | Some m \<Rightarrow> m) p"
  have 1: "List.find (\<lambda>m. manufacturer_name m = str_lower mf)
             (add_to_manufacturers ms (str_lower mf) p) = Some ?m"
    by (rule find_add_to_manufacturers)
  have 2: "orphans_products ?m = (case ?old of None \<Rightarrow> [] | Some m \<Rightarrow> orphans_products m) @ [p]"
    using add_product_orphan[OF f] by (simp add: Manufacturer_def split: option.splits)
  from 1 2 show "\<exists>m'. List.find (\<lambda>m. manufacturer_name m = str_lower mf)
                     (add_to_manufacturers ms (str_lower mf) p) = Some m'
           \<and> orphans_products m' =
               (case List.find (\<lambda>m. manufacturer_name m = str_lower mf) ms of
                  None \<Rightarrow> [] | Some m \<Rightarrow> orphans_products m) @ [p]"
    by blast
qed


section \<open>The key of a matched listing\<close>

lemma match_in_manufacturer_matches:
  "matches (match_in_manufacturer m l t st) =
     (case first_match (candidates m t) t of
        None \<Rightarrow> matches st
      | Some p \<Rightarrow> add_to_result (product_name p) l (matches st))"
proof -
  let ?hits = "filter (\<lambda>f. str_in (family_name f) t) (families m)"
  let ?N = "\<lambda>f. first_match (family_products f) t = None"
  obtain b st1 where r: "families_loop (families m) l t st = (b, st1)"
    by (cases "families_loop (families m) l t st")
  have b: "b = (dropWhile ?N ?hits \<noteq> [])"
    using families_loop_found[of "families m" l t st] r by simp
  have m1: "matches st1 =
     (case first_match (concat (map family_products ?hits)) t of
        None \<Rightarrow> matches st | Some p \<Rightarrow> add_to_result (product_name p) l (matches st))"
    using families_loop_matches[of "families m" l t st] r by simp
  show ?thesis
  proof (cases b)
    case True
    then have "first_match (concat (map family_products ?hits)) t \<noteq> None"
      unfolding b first_match_concat_None dropWhile_Nil_iff_list_all by simp
    then show ?thesis using True r m1
      by (auto simp: match_in_manufacturer_def candidates_def first_match_append
          split: option.splits)
  next
    case False
    then have n: "first_match (concat (map family_products ?hits)) t = None"
      unfolding b first_match_concat_None dropWhile_Nil_iff_list_all by simp
    then have "matches st1 = matches st" using m1 by simp
    then show ?thesis using False r n
      by (simp add: match_in_manufacturer_def candidates_def find_product_and_add_to_result_eq
          first_match_append split: option.splits)
  qed
qed

lemma match_listing_matches:
  "l ''manufacturer'' = Some mf \<Longrightarrow> l ''title'' = Some ti \<Longrightarrow>
   \<exists>st'. match_listing ms st l = Inr st'
     \<and> matches st' =
         (case matched_product ms mf ti of
            None \<Rightarrow> matches st
          | Some p \<Rightarrow> add_to_result (product_name p) l (matches st))"
  by (simp add: match_listing_def getitem_def matched_product_def match_in_manufacturer_matches
      split: option.splits)

lemma Product_name: "Product pn fam md = Inr p \<Longrightarrow> product_name p = str_lower pn"
  by (auto simp: Product_def split: sum.splits if_splits)

lemma add_to_families_products:
  "(\<Union>f\<in>set (add_to_families fs n p). set (family_products f)) =
     (\<Union>f\<in>set fs. set (family_products f)) \<union> {p}"
  by (induction fs) (auto simp: family_add_product_def Family_def)

lemma manufacturer_products_add_product:
  "manufacturer_products (add_product m p) = manufacturer_products m \<union> {p}"
  by (cases "product_family p")
     (auto simp: manufacturer_products_def add_product_def add_to_families_products)

lemma catalog_entries_add:
  "catalog_entries (add_to_manufacturers ms (str_lower mf) p) =
     catalog_entries ms \<union> {(str_lower mf, p)}"
proof (induction ms)
  case Nil
  have "manufacturer_products (Manufacturer (str_lower mf)) = {}"
    by (simp add: manufacturer_products_def Manufacturer_def)
  moreover have "manufacturer_name (Manufacturer (str_lower mf)) = str_lower mf"
    by (simp add: Manufacturer_def str_lower_idem)
  ultimately show ?case
    by (simp add: catalog_entries_def manufacturer_products_add_product
        manufacturer_name_add_product)
next
  case (Cons m ms)
  show ?case
  proof (cases "manufacturer_name m = str_lower mf")
    case True
    then show ?thesis
      by (auto simp: catalog_entries_def manufacturer_products_add_product
          manufacturer_name_add_product)
  next
    case False
    then have "catalog_entries (add_to_manufacturers (m # ms) (str_lower mf) p) =
        (\<lambda>p. (manufacturer_name m, p)) ` manufacturer_products m
        \<union> catalog_entries (add_to_manufacturers ms (str_lower mf) p)"
      by (simp add: catalog_entries_def)
    also have "\<dots> = (\<lambda>p. (manufacturer_name m, p)) ` manufacturer_products m
        \<union> (catalog_entries ms \<union> {(str_lower mf, p)})"
      by (simp only: Cons.IH)
    also have "\<dots> = catalog_entries (m # ms) \<union> {(str_lower mf, p)}"
      by (simp add: catalog_entries_def Un_assoc)
    finally show ?thesis .
  qed
qed

lemma add_record_entries:
  "add_record ms r = Inr ms' \<Longrightarrow>
   \<exists>n p. catalog_entries ms' = catalog_entries ms \<union> {(n, p)} \<and> from_record r n p"
proof -
  assume a: "add_record ms r = Inr ms'"
  then obtain mf pn md p where f: "r ''manufacturer'' = Some mf" "r ''product_name'' = Some pn"
      "r ''model'' = Some md" "Product pn (r ''family'') md = Inr p"
    and m: "ms' = add_to_manufacturers ms (str_lower mf) p"
    by (auto simp: add_record_def getitem_def split: option.splits sum.splits)
  from f have "from_record r (str_lower mf) p"
    unfolding from_record_def by blast
  moreover from m have "catalog_entries ms' = catalog_entries ms \<union> {(str_lower mf, p)}"
    by (simp add: catalog_entries_add)
  ultimately show ?thesis by blast
qed

lemma add_records_entries:
  "add_records ms recs = Inr ms' \<Longrightarrow> (n, p) \<in> catalog_entries ms' \<Longrightarrow>
   (n, p) \<in> catalog_entries ms \<or> (\<exists>r\<in>set recs. from_record r n p)"
proof (induction recs arbitrary: ms)
  case Nil
  then show ?case by simp
next
  case (Cons r recs)
  then obtain ms1 where a: "add_record ms r = Inr ms1" and b: "add_records ms1 recs = Inr ms'"
    by (auto split: sum.splits)
  from a obtain n1 p1 where q: "catalog_entries ms1 = catalog_entries ms \<union> {(n1, p1)}"
      "from_record r n1 p1"
    using add_record_entries by blast
  from Cons.IH[OF b Cons.prems(2)]
  have "(n, p) \<in> catalog_entries ms1 \<or> (\<exists>r\<in>set recs. from_record r n p)" .
  with q show ?case by auto
qed

lemma prepare_products_data_entries:
  "prepare_products_data recs = Inr ms \<Longrightarrow> (n, p) \<in> catalog_entries ms \<Longrightarrow>
   \<exists>r\<in>set recs. from_record r n p"
proof -
  assume p: "prepare_products_data recs = Inr ms" and i: "(n, p) \<in> catalog_entries ms"
  then obtain ms0 where a: "add_records [] recs = Inr ms0" and m: "ms = sort_key manufacturer_name ms0"
    by (auto simp: prepare_products_data_def split: sum.splits)
  from i m have "(n, p) \<in> catalog_entries ms0" by (simp add: catalog_entries_def)
  with a have "(n, p) \<in> catalog_entries [] \<or> (\<exists>r\<in>set recs. from_record r n p)"
    by (rule add_records_entries)
  then show ?thesis by (simp add: catalog_entries_def)
qed

lemma bisect_left_loop_le: "lo \<le> hi \<Longrightarrow> bisect_left_loop a x lo hi \<le> hi"
proof (induction a x lo hi rule: bisect_left_loop.induct)
  case (1 a x lo hi)
  show ?case
  proof (cases "lo < hi")
    case False
    then show ?thesis using "1.prems" by (subst bisect_left_loop.simps) simp
  next
    case True
    define mid where "mid = (lo + hi) div 2"
    have m: "lo \<le> mid" "mid < hi" using True by (simp_all add: mid_def)
    show ?thesis
    proof (cases "a ! mid < x")
      case lt: True
      have e: "bisect_left_loop a x lo hi = bisect_left_loop a x (mid + 1) hi"
        using True lt by (subst bisect_left_loop.simps) (simp add: mid_def Let_def)
      have "mid + 1 \<le> hi" using m by simp
      from "1.IH"(1)[OF True mid_def lt this] show ?thesis unfolding e .
    next
      case ge: False
      have e: "bisect_left_loop a x lo hi = bisect_left_loop a x lo mid"
        using True ge by (subst bisect_left_loop.simps) (simp add: mid_def Let_def)
      from "1.IH"(2)[OF True mid_def ge m(1)] m show ?thesis unfolding e by simp
    qed
  qed
qed

lemma bisect_left_le: "bisect_left ms n \<le> length ms"
  by (simp add: bisect_left_def bisect_left_loop_le)

lemma find_manufacturer_in_set: "find_manufacturer ms n = Some m \<Longrightarrow> m \<in> set ms"
proof -
  assume a: "find_manufacturer ms n = Some m"
  have b: "bisect_left ms n \<le> length ms" by (rule bisect_left_le)
  show ?thesis
  proof (cases "bisect_left ms n < length ms \<and> str_in n (manufacturer_name (ms ! bisect_left ms n))")
    case True
    with a have "m = ms ! bisect_left ms n" by (simp add: find_manufacturer_def)
    with True show ?thesis by simp
  next
    case False
    with a have "0 < bisect_left ms n" and "m = ms ! (bisect_left ms n - 1)"
      by (auto simp: find_manufacturer_def Let_def split: if_splits)
    moreover from this b have "bisect_left ms n - 1 < length ms" by simp
    ultimately show ?thesis by simp
  qed
qed

lemma first_match_in_set: "first_match ps t = Some p \<Longrightarrow> p \<in> set ps"
  by (auto simp: first_match_def find_Some_iff)

lemma candidates_subset: "set (candidates m t) \<subseteq> manufacturer_products m"
  by (auto simp: candidates_def manufacturer_products_def)

lemma find_manufacturer_contains:
  "find_manufacturer ms n = Some m \<Longrightarrow> str_in n (manufacturer_name m)"
  by (auto simp: find_manufacturer_def Let_def split: if_splits)

lemma first_match_found: "first_match ps t = Some p \<Longrightarrow> re_search (whole_model_re p) t"
  by (auto simp: first_match_def find_Some_iff)

lemma matched_product_entry:
  "matched_product ms mf ti = Some p \<Longrightarrow>
   \<exists>m :: manufacturer. (manufacturer_name m, p) \<in> catalog_entries ms
     \<and> str_in (str_lower mf) (manufacturer_name m)
     \<and> re_search (whole_model_re p) (str_lower ti)"
proof -
  assume "matched_product ms mf ti = Some p"
  then obtain m where f: "find_manufacturer ms (str_lower mf) = Some m"
    and c: "first_match (candidates m (str_lower ti)) (str_lower ti) = Some p"
    by (auto simp: matched_product_def split: option.splits)
  from c have "p \<in> set (candidates m (str_lower ti))" by (rule first_match_in_set)
  then have "p \<in> manufacturer_products m" using candidates_subset by blast
  moreover from f have "m \<in> set ms" by (rule find_manufacturer_in_set)
  ultimately have "(manufacturer_name m, p) \<in> catalog_entries ms"
    by (auto simp: catalog_entries_def)
  moreover from f have "str_in (str_lower mf) (manufacturer_name m)"
    by (rule find_manufacturer_contains)
  moreover from c have "re_search (whole_model_re p) (str_lower ti)"
    by (rule first_match_found)
  ultimately show ?thesis by blast
qed

text \<open>
  C5, as amended. When a listing is matched to a product of the index built from the
  catalog, it is recorded under the product's name. The product is the one built from a
  record of the catalog whose model, as a pattern, is found in the lower-cased title and
  whose lower-cased manufacturer contains the listing's lower-cased manufacturer; and the
  key is the lower-cased form of that record's display name (not the display name as given).
\<close>

theorem result_key_is_normalized_display_name:
  "prepare_products_data recs = Inr ms \<Longrightarrow>
   listing ''manufacturer'' = Some mf \<Longrightarrow> listing ''title'' = Some ti \<Longrightarrow>
   matched_product ms mf ti = Some p \<Longrightarrow>
   (\<exists>st'. match_listing ms st listing = Inr st'
       \<and> matches st' = add_to_result (product_name p) listing (matches st))
   \<and> re_search (whole_model_re p) (str_lower ti)
   \<and> (\<exists>r\<in>set recs. \<exists>rmf pn md.
          r ''manufacturer'' = Some rmf \<and> r ''product_name'' = Some pn \<and> r ''model'' = Some md
          \<and> Product pn (r ''family'') md = Inr p
          \<and> str_in (str_lower mf) (str_lower rmf)
          \<and> product_name p = str_lower pn)"
proof (intro conjI)
  assume p: "prepare_products_data recs = Inr ms" and a: "listing ''manufacturer'' = Some mf"
    and b: "listing ''title'' = Some ti" and m: "matched_product ms mf ti = Some p"
  from match_listing_matches[OF a b, of ms st] m
  show "\<exists>st'. match_listing ms st listing = Inr st'
       \<and> matches st' = add_to_result (product_name p) listing (matches st)"
    by simp
  from m obtain mm :: manufacturer where e: "(manufacturer_name mm, p) \<in> catalog_entries ms"
    and c: "str_in (str_lower mf) (manufacturer_name mm)"
    and s: "re_search (whole_model_re p) (str_lower ti)"
    using matched_product_entry by blast
  from s show "re_search (whole_model_re p) (str_lower ti)" .
  from p e obtain r where r: "r \<in> set recs" and f: "from_record r (manufacturer_name mm) p"
    using prepare_products_data_entries by blast
  from f obtain rmf pn md where g: "r ''manufacturer'' = Some rmf" "r ''product_name'' = Some pn"
      "r ''model'' = Some md" "manufacturer_name mm = str_lower rmf"
      "Product pn (r ''family'') md = Inr p"
    unfolding from_record_def by blast
  from g(5) have "product_name p = str_lower pn" by (rule Product_name)
  with r g c show "\<exists>r\<in>set recs. \<exists>rmf pn md.
          r ''manufacturer'' = Some rmf \<and> r ''product_name'' = Some pn \<and> r ''model'' = Some md
          \<and> Product pn (r ''family'') md = Inr p
          \<and> str_in (str_lower mf) (str_lower rmf)
          \<and> product_name p = str_lower pn"
    by auto
qed


section \<open>Models without pattern syntax\<close>

text \<open>
  When the normalized model is ASCII and none of its characters is pattern syntax, the
  pattern compiles and
  is found in a title exactly when the model occurs there as a whole token; a title
  equal to the model is such a title. Product resolution then selects the first product
  of the list whose model so occurs.
\<close>

lemma parse_chars_append:
  "parse_chars p (xs @ ys) =
     (case parse_chars p xs of Inl e \<Rightarrow> Inl e | Inr p' \<Rightarrow> parse_chars p' ys)"
  by (induction xs arbitrary: p) (simp_all split: sum.splits)

lemma parse_char_plain:
  "plain_char c \<Longrightarrow> \<not> pending_escape p \<Longrightarrow>
   parse_char p c = Inr (p\<lparr>items := items p @ [Atom (Literal c)]\<rparr>)"
  by (simp add: plain_char_def parse_char_def push_item_def)

lemma parse_chars_plain:
  "\<forall>c\<in>set m. plain_char c \<Longrightarrow> \<not> pending_escape p \<Longrightarrow>
   parse_chars p m = Inr (p\<lparr>items := items p @ map (\<lambda>c. Atom (Literal c)) m\<rparr>)"
proof (induction m arbitrary: p)
  case Nil
  then show ?case by simp
next
  case (Cons c m)
  then have "parse_char p c = Inr (p\<lparr>items := items p @ [Atom (Literal c)]\<rparr>)"
    by (simp add: parse_char_plain)
  moreover have "parse_chars (p\<lparr>items := items p @ [Atom (Literal c)]\<rparr>) m =
      Inr (p\<lparr>items := items p @ [Atom (Literal c)]\<rparr>
            \<lparr>items := items (p\<lparr>items := items p @ [Atom (Literal c)]\<rparr>) @ map (\<lambda>c. Atom (Literal c)) m\<rparr>)"
    using Cons.prems by (intro Cons.IH) simp_all
  ultimately show ?case by simp
qed

lemma re_compile_plain:
  assumes "\<forall>c\<in>set m. plain_char c"
  shows "re_compile (whole_model_pattern m) =
     Inr (Cat left_bound
           (Cat (Subpattern (cat_all (map (\<lambda>c. Atom (Literal c)) m)))
             (Cat right_bound Epsilon)))"
proof -
  let ?init = "\<lparr>stack = [], alternatives = [], items = [], pending_escape = False\<rparr>"
  let ?pre = "[CHR ''('', CHR ''^'', CHR ''|'', CHR 0x5C, CHR ''b'', CHR '')'', CHR ''('']"
  let ?post = "[CHR '')'', CHR ''('', CHR ''$'', CHR ''|'', CHR 0x5C, CHR ''b'', CHR '')'']"
  let ?s0 = "\<lparr>stack = [([], [left_bound])], alternatives = [], items = [], pending_escape = False\<rparr>"
  have a: "parse_chars ?init ?pre = Inr ?s0"
    by (simp add: parse_char_def push_item_def close_frame_def left_bound_def)
  have b: "parse_chars ?s0 m = Inr (?s0\<lparr>items := items ?s0 @ map (\<lambda>c. Atom (Literal c)) m\<rparr>)"
    by (rule parse_chars_plain) (use assms in simp_all)
  have c: "parse_chars (?s0\<lparr>items := items ?s0 @ map (\<lambda>c. Atom (Literal c)) m\<rparr>) ?post =
      Inr \<lparr>stack = [], alternatives = [],
           items = [left_bound, Subpattern (cat_all (map (\<lambda>c. Atom (Literal c)) m)), right_bound],
           pending_escape = False\<rparr>"
    by (simp add: parse_char_def push_item_def close_frame_def right_bound_def)
  have "parse_chars ?init (whole_model_pattern m) =
      Inr \<lparr>stack = [], alternatives = [],
           items = [left_bound, Subpattern (cat_all (map (\<lambda>c. Atom (Literal c)) m)), right_bound],
           pending_escape = False\<rparr>"
    unfolding whole_model_pattern_def by (simp only: parse_chars_append a b c sum.case)
  then show ?thesis
    by (simp add: re_compile_def close_frame_def)
qed

lemma prefix_drop_Cons:
  "prefix (c # m) (drop i t) \<longleftrightarrow> i < length t \<and> t ! i = c \<and> prefix m (drop (Suc i) t)"
proof (cases "i < length t")
  case True
  then have "drop i t = t ! i # drop (Suc i) t" by (simp add: Cons_nth_drop_Suc)
  then show ?thesis using True by auto
next
  case False
  then show ?thesis by simp
qed

lemma ends_literals:
  "ends (cat_all (map (\<lambda>c. Atom (Literal c)) m)) t i =
     (if prefix m (drop i t) then [i + length m] else [])"
proof (induction m arbitrary: i)
  case Nil
  then show ?case by simp
next
  case (Cons c m)
  show ?case by (simp add: Cons.IH prefix_drop_Cons)
qed

lemma ends_whole_model:
  "ends (Cat left_bound (Cat (Subpattern (cat_all (map (\<lambda>c. Atom (Literal c)) m)))
          (Cat right_bound Epsilon))) t i \<noteq> [] \<longleftrightarrow>
     prefix m (drop i t) \<and> (i = 0 \<or> at_boundary t i)
     \<and> (i + length m = length t
         \<or> (Suc (i + length m) = length t \<and> t ! (i + length m) = CHR 0x0A)
         \<or> at_boundary t (i + length m))"
  by (auto simp: left_bound_def right_bound_def ends_literals)

lemma re_search_whole_model:
  "re_search (Cat left_bound (Cat (Subpattern (cat_all (map (\<lambda>c. Atom (Literal c)) m)))
          (Cat right_bound Epsilon))) t = occurs_whole m t"
  unfolding re_search_def occurs_whole_def by (simp only: ends_whole_model)

lemma plain_model_whole_token:
  assumes "\<forall>c\<in>set (str_lower model). plain_char c"
    and "\<forall>c\<in>set (str_lower model). (of_char c :: nat) < 128"
  shows "\<exists>p. Product name fam model = Inr p \<and> product_model p = str_lower model
     \<and> (\<forall>t. re_search (whole_model_re p) t = occurs_whole (str_lower model) t)"
proof -
  from assms(2) have "\<not> list_ex (\<lambda>c. 128 \<le> (of_char c :: nat)) (str_lower model)"
    by (auto simp: list_ex_iff)
  then show ?thesis
    by (simp add: Product_def re_compile_plain[OF assms(1)] re_search_whole_model)
qed

lemma occurs_whole_self: "occurs_whole m m"
  by (auto simp: occurs_whole_def list_ex_iff intro!: bexI[of _ 0])

lemma first_match_plain_models:
  assumes "\<forall>p\<in>set ps. (\<forall>c\<in>set (product_model p). plain_char c)
      \<and> re_compile (whole_model_pattern (product_model p)) = Inr (whole_model_re p)"
  shows "first_match ps t = List.find (\<lambda>p. occurs_whole (product_model p) t) ps"
proof -
  have "re_search (whole_model_re p) t = occurs_whole (product_model p) t" if "p \<in> set ps" for p
  proof -
    from that assms have a: "\<forall>c\<in>set (product_model p). plain_char c"
      and b: "re_compile (whole_model_pattern (product_model p)) = Inr (whole_model_re p)"
      by blast+
    from re_compile_plain[OF a] b show ?thesis
      by (simp add: re_search_whole_model[symmetric])
  qed
  then show ?thesis
    unfolding first_match_def by (intro find_cong) simp_all
qed


section \<open>End to end\<close>

lemma add_to_result_empty: "add_to_result k l Map.empty = [k \<mapsto> [l]]"
  by (simp add: add_to_result_def)

lemma run_one:
  "prepare_products_data recs = Inr ms \<Longrightarrow> l ''manufacturer'' = Some mf \<Longrightarrow> l ''title'' = Some ti \<Longrightarrow>
   \<exists>st. run recs [l] = Inr st
     \<and> matches st = (case matched_product ms mf ti of None \<Rightarrow> Map.empty
                      | Some p \<Rightarrow> [product_name p \<mapsto> [l]])"
proof -
  assume p: "prepare_products_data recs = Inr ms" and a: "l ''manufacturer'' = Some mf"
    and b: "l ''title'' = Some ti"
  let ?s = "\<lparr>matches = Map.empty, key_order = [], calls = []\<rparr> :: matcher"
  from match_listing_matches[OF a b, of ms ?s]
  obtain st' where s: "match_listing ms ?s l = Inr st'"
    and m: "matches st' = (case matched_product ms mf ti of None \<Rightarrow> matches ?s
                      | Some p \<Rightarrow> add_to_result (product_name p) l (matches ?s))"
    by blast
  from s p have "run recs [l] = Inr st'"
    by (simp add: run_def match_listings_def)
  moreover from m have "matches st' = (case matched_product ms mf ti of None \<Rightarrow> Map.empty
                      | Some p \<Rightarrow> [product_name p \<mapsto> [l]])"
    by (simp add: add_to_result_empty split: option.splits)
  ultimately show ?thesis by blast
qed

text \<open>
  C5, as stated, fails: the catalog record gives the display name \<open>Sony_T99\<close>, and the
  listing matched to it is recorded under \<open>sony_t99\<close>; the result has no key \<open>Sony_T99\<close>.
\<close>

theorem display_name_key_counterexample:
  "\<exists>st. run [sony_t99] [sony_listing] = Inr st
      \<and> sony_t99 ''product_name'' = Some ''Sony_T99''
      \<and> matches st ''Sony_T99'' = None
      \<and> matches st ''sony_t99'' = Some [sony_listing]"
proof -
  have i: "prepare_products_data [sony_t99] = Inr sony_index" by code_simp
  have "map_option product_name (matched_product sony_index ''Sony'' ''Sony T99 silver'')
      = Some ''sony_t99''" by code_simp
  then obtain p where m: "matched_product sony_index ''Sony'' ''Sony T99 silver'' = Some p"
    and n: "product_name p = ''sony_t99''" by auto
  have a: "sony_listing ''manufacturer'' = Some ''Sony''" "sony_listing ''title'' = Some ''Sony T99 silver''"
    by (simp_all add: sony_listing_def)
  from run_one[OF i a] m n obtain st where "run [sony_t99] [sony_listing] = Inr st"
    and "matches st = [''sony_t99'' \<mapsto> [sony_listing]]" by auto
  moreover have "sony_t99 ''product_name'' = Some ''Sony_T99''" by (simp add: sony_t99_def)
  ultimately show ?thesis by simp
qed

text \<open>
  The amended C5 at the record \<open>sony_t99\<close> and the listing \<open>sony_listing\<close>.
\<close>

theorem result_key_is_normalized_display_name_witness:
  "\<exists>p. prepare_products_data [sony_t99] = Inr sony_index
      \<and> sony_listing ''manufacturer'' = Some ''Sony''
      \<and> sony_listing ''title'' = Some ''Sony T99 silver''
      \<and> matched_product sony_index ''Sony'' ''Sony T99 silver'' = Some p
      \<and> (\<exists>st'. match_listing sony_index start sony_listing = Inr st'
            \<and> matches st' = add_to_result (product_name p) sony_listing (matches start))
      \<and> re_search (whole_model_re p) (str_lower ''Sony T99 silver'')
      \<and> Product ''Sony_T99'' (sony_t99 ''family'') ''T99'' = Inr p
      \<and> str_in (str_lower ''Sony'') (str_lower ''Sony'')
      \<and> product_name p = str_lower ''Sony_T99''"
proof -
  have i: "prepare_products_data [sony_t99] = Inr sony_index" by code_simp
  have "map_option product_name (matched_product sony_index ''Sony'' ''Sony T99 silver'')
      = Some (str_lower ''Sony_T99'')" by code_simp
  then obtain p where m: "matched_product sony_index ''Sony'' ''Sony T99 silver'' = Some p"
    by auto
  have a: "sony_listing ''manufacturer'' = Some ''Sony''" "sony_listing ''title'' = Some ''Sony T99 silver''"
    by (simp_all add: sony_listing_def)
  note t = result_key_is_normalized_display_name[OF i a m, of start]
  from t have 1: "\<exists>st'. match_listing sony_index start sony_listing = Inr st'
            \<and> matches st' = add_to_result (product_name p) sony_listing (matches start)"
    by blast
  from t have 2: "re_search (whole_model_re p) (str_lower ''Sony T99 silver'')"
    by blast
  from t have 3: "Product ''Sony_T99'' (sony_t99 ''family'') ''T99'' = Inr p
      \<and> str_in (str_lower ''Sony'') (str_lower ''Sony'')
      \<and> product_name p = str_lower ''Sony_T99''"
    by (simp add: sony_t99_def)
  from i a m 1 2 3 show ?thesis by blast
qed

text \<open>
  C4, as stated, fails on the name: after the run on the Acme record and the listing
  \<open>Acme Pro X100 Black\<close>, the result has no key \<open>Acme Pro X100\<close>.
\<close>

theorem acme_scenario_counterexample:
  "\<exists>st. run [acme_pro_x100] [black_x100] = Inr st
      \<and> acme_pro_x100 ''product_name'' = Some ''Acme Pro X100''
      \<and> matches st ''Acme Pro X100'' = None"
proof -
  have i: "prepare_products_data [acme_pro_x100] = Inr acme_index" by code_simp
  have "map_option product_name (matched_product acme_index ''ACME'' ''Acme Pro X100 Black'')
      = Some ''acme pro x100''" by code_simp
  then obtain p where m: "matched_product acme_index ''ACME'' ''Acme Pro X100 Black'' = Some p"
    and n: "product_name p = ''acme pro x100''" by auto
  have a: "black_x100 ''manufacturer'' = Some ''ACME''" "black_x100 ''title'' = Some ''Acme Pro X100 Black''"
    by (simp_all add: black_x100_def)
  from run_one[OF i a] m n obtain st where "run [acme_pro_x100] [black_x100] = Inr st"
    and "matches st = [''acme pro x100'' \<mapsto> [black_x100]]" by auto
  moreover have "acme_pro_x100 ''product_name'' = Some ''Acme Pro X100''"
    by (simp add: acme_pro_x100_def)
  ultimately show ?thesis by simp
qed

text \<open>
  C4, as amended. With the single Acme record as the catalog, the listing
  \<open>Acme Pro X100 Black\<close> is matched to the record's product and recorded under its
  normalized name \<open>acme pro x100\<close>; the listing \<open>Acme Pro X1000 Black\<close> is unmatched: the
  model \<open>x100\<close> occurs in its title, and the whole-model pattern is not found there.
\<close>

theorem acme_scenario:
  "(\<exists>st. run [acme_pro_x100] [black_x100] = Inr st
       \<and> matches st = [''acme pro x100'' \<mapsto> [black_x100]])
   \<and> (\<exists>st. run [acme_pro_x100] [black_x1000] = Inr st \<and> matches st = Map.empty)
   \<and> (\<exists>p. Product ''Acme Pro X100'' (Some ''Pro'') ''X100'' = Inr p
         \<and> product_name p = ''acme pro x100''
         \<and> str_in (product_model p) (str_lower ''Acme Pro X1000 Black'')
         \<and> \<not> re_search (whole_model_re p) (str_lower ''Acme Pro X1000 Black'')
         \<and> re_search (whole_model_re p) (str_lower ''Acme Pro X100 Black''))"
proof (intro conjI)
  have i: "prepare_products_data [acme_pro_x100] = Inr acme_index" by code_simp
  have "map_option product_name (matched_product acme_index ''ACME'' ''Acme Pro X100 Black'')
      = Some ''acme pro x100''" by code_simp
  then obtain p where m: "matched_product acme_index ''ACME'' ''Acme Pro X100 Black'' = Some p"
    and n: "product_name p = ''acme pro x100''" by auto
  have a: "black_x100 ''manufacturer'' = Some ''ACME''" "black_x100 ''title'' = Some ''Acme Pro X100 Black''"
    by (simp_all add: black_x100_def)
  from run_one[OF i a] m n
  show "\<exists>st. run [acme_pro_x100] [black_x100] = Inr st
       \<and> matches st = [''acme pro x100'' \<mapsto> [black_x100]]" by auto
  have m2: "matched_product acme_index ''ACME'' ''Acme Pro X1000 Black'' = None" by code_simp
  have b: "black_x1000 ''manufacturer'' = Some ''ACME''" "black_x1000 ''title'' = Some ''Acme Pro X1000 Black''"
    by (simp_all add: black_x1000_def)
  from run_one[OF i b] m2
  show "\<exists>st. run [acme_pro_x100] [black_x1000] = Inr st \<and> matches st = Map.empty" by auto
  have "case Product ''Acme Pro X100'' (Some ''Pro'') ''X100'' of Inl e \<Rightarrow> False
     | Inr p \<Rightarrow> product_name p = ''acme pro x100''
         \<and> str_in (product_model p) (str_lower ''Acme Pro X1000 Black'')
         \<and> \<not> re_search (whole_model_re p) (str_lower ''Acme Pro X1000 Black'')
         \<and> re_search (whole_model_re p) (str_lower ''Acme Pro X100 Black'')"
    by code_simp
  then show "\<exists>p. Product ''Acme Pro X100'' (Some ''Pro'') ''X100'' = Inr p
         \<and> product_name p = ''acme pro x100''
         \<and> str_in (product_model p) (str_lower ''Acme Pro X1000 Black'')
         \<and> \<not> re_search (whole_model_re p) (str_lower ''Acme Pro X1000 Black'')
         \<and> re_search (whole_model_re p) (str_lower ''Acme Pro X100 Black'')"
    by (auto split: sum.splits)
qed

text \<open>
  C1 fails on models with pattern syntax, which is formatted into the pattern unescaped.
  The product with model \<open>A+B\<close> is not selected for the title \<open>a+b\<close>, equal to its
  normalized model; the product with model \<open>4.3\<close> is selected for the title
  \<open>digilux 473\<close>, where its model does not occur; and the product with model \<open>C++\<close>
  cannot be constructed (\<open>re.compile\<close> raises).
\<close>

theorem unescaped_model_pattern:
  "(case Product ''A+B'' None ''A+B'' of
      Inl e \<Rightarrow> False
    | Inr p \<Rightarrow> product_model p = ''a+b''
        \<and> \<not> fst (find_product_and_add_to_result [p] nikon_listing ''a+b'' start))
   \<and> (case Product ''Digilux 4.3'' None ''4.3'' of
      Inl e \<Rightarrow> False
    | Inr p \<Rightarrow> \<not> str_in (product_model p) ''digilux 473''
        \<and> fst (find_product_and_add_to_result [p] nikon_listing ''digilux 473'' start))
   \<and> Product ''C++'' None ''C++'' = Inl ReError"
  by code_simp

text \<open>C8 on a run: the same listing matched twice is recorded twice, in order.\<close>

theorem aggregation_appends_and_keeps_keys_witness:
  "(Map.empty :: string \<rightharpoonup> json list) ''acme pro x100'' = None
   \<and> add_to_result ''acme pro x100'' black_x100
        (add_to_result ''acme pro x100'' black_x100 Map.empty) ''acme pro x100''
       = Some [black_x100, black_x100]
   \<and> (\<exists>st1 st2. match_loop acme_index start [black_x100] = Inr st1
          \<and> match_loop acme_index st1 [black_x100, nikon_listing] = Inr st2
          \<and> matches st1 ''acme pro x100'' = Some [black_x100]
          \<and> matches st2 ''acme pro x100'' = Some [black_x100, black_x100]
          \<and> dom (matches st1) \<subseteq> dom (matches st2))"
proof -
  have e: "(Map.empty :: string \<rightharpoonup> json list) ''acme pro x100'' = None" by simp
  note a = aggregation_appends_and_keeps_keys[where ms = Map.empty and k = "''acme pro x100''"
      and ?l1.0 = black_x100 and ?l2.0 = black_x100]
  from a e have 1: "add_to_result ''acme pro x100'' black_x100
        (add_to_result ''acme pro x100'' black_x100 Map.empty) ''acme pro x100''
       = Some [black_x100, black_x100]" by blast
  have "map_option product_name (matched_product acme_index ''ACME'' ''Acme Pro X100 Black'')
      = Some ''acme pro x100''" by code_simp
  then obtain p where m: "matched_product acme_index ''ACME'' ''Acme Pro X100 Black'' = Some p"
    and n: "product_name p = ''acme pro x100''" by auto
  have m2: "matched_product acme_index ''Nikon'' ''Nikon D90'' = None" by code_simp
  have f: "black_x100 ''manufacturer'' = Some ''ACME''" "black_x100 ''title'' = Some ''Acme Pro X100 Black''"
    by (simp_all add: black_x100_def)
  have g: "nikon_listing ''manufacturer'' = Some ''Nikon''" "nikon_listing ''title'' = Some ''Nikon D90''"
    by (simp_all add: nikon_listing_def)
  from match_listing_matches[OF f, of acme_index start] m n
  obtain st1 where s1: "match_listing acme_index start black_x100 = Inr st1"
    and k1: "matches st1 = add_to_result ''acme pro x100'' black_x100 (matches start)" by auto
  from match_listing_matches[OF f, of acme_index st1] m n
  obtain st2 where s2: "match_listing acme_index st1 black_x100 = Inr st2"
    and k2: "matches st2 = add_to_result ''acme pro x100'' black_x100 (matches st1)" by auto
  from match_listing_matches[OF g, of acme_index st2] m2
  obtain st3 where s3: "match_listing acme_index st2 nikon_listing = Inr st3"
    and k3: "matches st3 = matches st2" by auto
  from s1 have r1: "match_loop acme_index start [black_x100] = Inr st1" by simp
  from s2 s3 have r2: "match_loop acme_index st1 [black_x100, nikon_listing] = Inr st3" by simp
  from k1 have v1: "matches st1 ''acme pro x100'' = Some [black_x100]"
    by (simp add: start_def add_to_result_same)
  from k1 k2 k3 have v2: "matches st3 ''acme pro x100'' = Some [black_x100, black_x100]"
    by (simp add: start_def add_to_result_same)
  from aggregation_appends_and_keeps_keys[where idx = acme_index and st = st1
      and listings = "[black_x100, nikon_listing]" and st' = st3] r2
  have d: "dom (matches st1) \<subseteq> dom (matches st3)" by blast
  from e 1 r1 r2 v1 v2 d show ?thesis by blast
qed

end
